theory Spec2Isabelle
  imports Complex_Main
begin

section \<open>Shared conventions\<close>

text \<open>
  Python \<open>str\<close> values are sequences of Unicode code points, modelled as lists
  of natural numbers; \<open>u\<close> embeds an ASCII literal.
  Exceptions are values: a fallible function returns \<open>error + 'a\<close>.
  \<open>DaqError\<close> is the exception of the vendor driver (\<open>nidaqmx\<close>),
  \<open>OSError\<close> the one of \<open>os.makedirs\<close>.
  The analyzer's arithmetic on arrays is modelled on real numbers: the rounding of
  its sums and products is outside the model. The scalar arithmetic of the recorder
  is modelled on IEEE doubles, with rounding, overflow, underflow and NaN.
\<close>

type_synonym ustr = "nat list"

definition u :: "string \<Rightarrow> ustr" where
  "u s = map of_char s"

datatype error = ValueError string | ZeroDivisionError | OverflowError | OSError | DaqError

definition bind_result :: "error + 'a \<Rightarrow> ('a \<Rightarrow> error + 'b) \<Rightarrow> error + 'b" where
  "bind_result r f = (case r of Inl e \<Rightarrow> Inl e | Inr v \<Rightarrow> f v)"

text \<open>Rounding half to even, as Python's \<open>round\<close> and the IEEE default do.\<close>

definition py_round :: "real \<Rightarrow> int" where
  "py_round x =
     (let f = \<lfloor>x\<rfloor>; r = x - of_int f
      in if r < 1/2 then f
         else if 1/2 < r then f + 1
         else if even f then f else f + 1)"


section \<open>Analyzer: \<open>GGHydroSoundAnalyzer/main.py\<close>\<close>

text \<open>
  An element of the \<open>float64\<close> input array is a finite number, an infinity or a NaN.
\<close>

datatype float64 = Finite real | PosInf | NegInf | NaN

fun isfinite :: "float64 \<Rightarrow> bool" where
  "isfinite (Finite v) = True"
| "isfinite PosInf = False"
| "isfinite NegInf = False"
| "isfinite NaN = False"

text \<open>\<open>np.nan_to_num(x, nan=0.0, posinf=0.0, neginf=0.0)\<close>, elementwise.\<close>

fun nan_to_num :: "float64 \<Rightarrow> float64" where
  "nan_to_num (Finite v) = Finite v"
| "nan_to_num PosInf = Finite 0"
| "nan_to_num NegInf = Finite 0"
| "nan_to_num NaN = Finite 0"

text \<open>The numbers held by an array without infinities and NaNs; \<open>None\<close> otherwise.\<close>

fun finite_values :: "float64 list \<Rightarrow> real list option" where
  "finite_values [] = Some []"
| "finite_values (Finite v # xs) = map_option ((#) v) (finite_values xs)"
| "finite_values (PosInf # xs) = None"
| "finite_values (NegInf # xs) = None"
| "finite_values (NaN # xs) = None"

text \<open>\<open>np.mean\<close> of a non-empty array.\<close>

definition mean :: "real list \<Rightarrow> real" where
  "mean xs = sum_list xs / real (length xs)"

text \<open>
  The functions of \<open>scipy.signal\<close> that the analyzer calls are not part of the
  repository; they are a parameter of the model. \<open>sosfiltfilt\<close> raises
  \<open>ValueError\<close> on an input that is too short for its padding.
\<close>

record signal_lib =
  bilinear :: "real list \<Rightarrow> real list \<Rightarrow> real \<Rightarrow> real list \<times> real list"
  tf2sos :: "real list \<Rightarrow> real list \<Rightarrow> real list list"
  sosfiltfilt :: "real list list \<Rightarrow> real list \<Rightarrow> error + real list"

text \<open>
  What a function of the analyzer itself reports besides its result (a warning, a
  log line, a count) is part of its outcome: a function returns the list of its
  reports with its result. What the SciPy calls print on their own (a
  \<open>BadCoefficients\<close> warning at an extreme rate) is not in this list.
\<close>

datatype report = Replaced_non_finite nat | Degraded_accuracy real

definition P0 :: real where
  "P0 = 20 / 10 ^ 6"

text \<open>\<open>np.polymul\<close>: both arguments lose their leading zeros, then are convolved.\<close>

definition poly1d :: "real list \<Rightarrow> real list" where
  "poly1d c = (let t = dropWhile (\<lambda>x. x = 0) c in if t = [] then [0] else t)"

fun padd :: "real list \<Rightarrow> real list \<Rightarrow> real list" where
  "padd [] ys = ys"
| "padd xs [] = xs"
| "padd (x # xs) (y # ys) = (x + y) # padd xs ys"

fun convolve :: "real list \<Rightarrow> real list \<Rightarrow> real list" where
  "convolve [] b = []"
| "convolve (x # xs) b = padd (map ((*) x) b) (0 # convolve xs b)"

definition polymul :: "real list \<Rightarrow> real list \<Rightarrow> real list" where
  "polymul a1 a2 = convolve (poly1d a1) (poly1d a2)"

definition f1 :: real where "f1 = 20598997 / 10 ^ 6"
definition f2 :: real where "f2 = 10765265 / 10 ^ 5"
definition f3 :: real where "f3 = 73786223 / 10 ^ 5"
definition f4 :: real where "f4 = 12194217 / 10 ^ 3"
definition A1000 :: real where "A1000 = 19997 / 10 ^ 4"

definition NUM :: "real list" where
  "NUM = [(2 * pi * f4) ^ 2 * (10 powr (A1000 / 20)), 0, 0, 0, 0]"

definition DEN :: "real list" where
  "DEN = polymul [1, 4 * pi * f4, (2 * pi * f4) ^ 2]
           (polymul [1, 4 * pi * f1, (2 * pi * f1) ^ 2]
              (polymul [1, 2 * pi * f3] [1, 2 * pi * f2]))"

definition design_a_weighting_sos ::
  "signal_lib \<Rightarrow> real \<Rightarrow> report list \<times> (error + real list list)" where
  "design_a_weighting_sos L fs =
     (if fs \<le> 0 then ([], Inl (ValueError ''Sampling frequency must be positive.''))
      else (let (b_z, a_z) = bilinear L NUM DEN fs;
                sos = tf2sos L b_z a_z
            in ([], Inr sos)))"

text \<open>
  \<open>compute_la_eq\<close> on the contents of its array argument. Once the non-finite
  elements are replaced the array holds numbers only; the \<open>None\<close> branch of
  \<open>finite_values\<close> is what NumPy would compute from a NaN or an infinity
  (a NaN). The mean of an empty filter output is a NaN as well.
\<close>

definition compute_la_eq ::
  "signal_lib \<Rightarrow> float64 list \<Rightarrow> real \<Rightarrow> report list \<times> (error + float64)" where
  "compute_la_eq L pressure_pa fs =
     (if length pressure_pa = 0 then ([], Inl (ValueError ''Empty signal.''))
      else
        (let pressure_pa = (if \<not> list_all isfinite pressure_pa
                            then map nan_to_num pressure_pa else pressure_pa)
         in case finite_values pressure_pa of
              None \<Rightarrow> ([], Inr NaN)
            | Some p \<Rightarrow>
                (let x = map (\<lambda>v. v - mean p) p
                 in case design_a_weighting_sos L fs of
                      (w, Inl e) \<Rightarrow> (w, Inl e)
                    | (w, Inr sos) \<Rightarrow>
                        (case sosfiltfilt L sos x of
                           Inl e \<Rightarrow> (w, Inl e)
                         | Inr x_a \<Rightarrow>
                             if x_a = [] then (w, Inr NaN)
                             else
                               (let p_rms_a = sqrt (mean (map (\<lambda>v. v ^ 2) x_a))
                                in if p_rms_a \<le> 0 then (w, Inr NegInf)
                                   else (w, Inr (Finite (20 * log 10 (p_rms_a / P0)))))))))"

subsection \<open>The same function on a store of arrays\<close>

text \<open>
  NumPy arrays are mutable objects passed by reference. A store holds the arrays by
  address; a new array gets the next address. \<open>np.nan_to_num\<close> writes into its
  argument when called with \<open>copy=False\<close> and returns a new array otherwise;
  the analyzer calls it with the default \<open>copy=True\<close>. A binary operator returns a new array.
  A reference always denotes an allocated array; \<open>array_at\<close> gives the empty
  array elsewhere to stay total.
\<close>

type_synonym store = "float64 list list"

definition array_at :: "store \<Rightarrow> nat \<Rightarrow> float64 list" where
  "array_at h r = (if r < length h then h ! r else [])"

definition alloc :: "store \<Rightarrow> float64 list \<Rightarrow> store \<times> nat" where
  "alloc h a = (h @ [a], length h)"

definition np_nan_to_num :: "store \<Rightarrow> nat \<Rightarrow> bool \<Rightarrow> store \<times> nat" where
  "np_nan_to_num h r copy =
     (if copy then alloc h (map nan_to_num (array_at h r))
      else (h[r := map nan_to_num (array_at h r)], r))"

definition compute_la_eq_store ::
  "signal_lib \<Rightarrow> store \<Rightarrow> nat \<Rightarrow> real \<Rightarrow> store \<times> report list \<times> (error + float64)" where
  "compute_la_eq_store L h pressure_pa fs =
     (if length (array_at h pressure_pa) = 0 then (h, [], Inl (ValueError ''Empty signal.''))
      else
        (let (h1, pressure_pa) = (if \<not> list_all isfinite (array_at h pressure_pa)
                                  then np_nan_to_num h pressure_pa True else (h, pressure_pa))
         in case finite_values (array_at h1 pressure_pa) of
              None \<Rightarrow> (h1, [], Inr NaN)
            | Some p \<Rightarrow>
                (let (h2, x) = alloc h1 (map (\<lambda>v. Finite (v - mean p)) p)
                 in case design_a_weighting_sos L fs of
                      (w, Inl e) \<Rightarrow> (h2, w, Inl e)
                    | (w, Inr sos) \<Rightarrow>
                        (case sosfiltfilt L sos (map (\<lambda>v. v - mean p) p) of
                           Inl e \<Rightarrow> (h2, w, Inl e)
                         | Inr x_a \<Rightarrow>
                             (let (h3, x_a_ref) = alloc h2 (map Finite x_a);
                                  (h4, sq_ref) = alloc h3 (map (\<lambda>v. Finite (v ^ 2)) x_a)
                              in if x_a = [] then (h4, w, Inr NaN)
                                 else
                                   (let p_rms_a = sqrt (mean (map (\<lambda>v. v ^ 2) x_a))
                                    in if p_rms_a \<le> 0 then (h4, w, Inr NegInf)
                                       else (h4, w, Inr (Finite (20 * log 10 (p_rms_a / P0))))))))))"

subsection \<open>The level computation as the specification words it\<close>

text \<open>
  The reference pipeline of the specification: replace non-finite values with zero,
  counting and reporting how many were replaced; subtract the arithmetic mean; filter
  with the designed sections, zero-phase; take the root mean square; return the
  sentinel when it is zero and \<open>20 * log10 (rms / P0)\<close> otherwise.
\<close>

definition count_non_finite :: "float64 list \<Rightarrow> nat" where
  "count_non_finite xs = length (filter (\<lambda>v. \<not> isfinite v) xs)"

fun zero_if_non_finite :: "float64 \<Rightarrow> real" where
  "zero_if_non_finite (Finite v) = v"
| "zero_if_non_finite PosInf = 0"
| "zero_if_non_finite NegInf = 0"
| "zero_if_non_finite NaN = 0"

definition rms :: "real list \<Rightarrow> real" where
  "rms xs = sqrt (sum_list (map (\<lambda>v. v ^ 2) xs) / real (length xs))"

definition computeLevel_spec ::
  "signal_lib \<Rightarrow> float64 list \<Rightarrow> real \<Rightarrow> report list \<times> (error + float64)" where
  "computeLevel_spec L samples fs =
     (let k = count_non_finite samples;
          clean = map zero_if_non_finite samples;
          centred = map (\<lambda>v. v - mean clean) clean
      in case snd (design_a_weighting_sos L fs) of
           Inl e \<Rightarrow> ([Replaced_non_finite k], Inl e)
         | Inr sos \<Rightarrow>
             (case sosfiltfilt L sos centred of
                Inl e \<Rightarrow> ([Replaced_non_finite k], Inl e)
              | Inr filtered \<Rightarrow>
                  ([Replaced_non_finite k],
                   Inr (if rms filtered = 0 then NegInf
                        else Finite (20 * log 10 (rms filtered / P0))))))"

text \<open>
  A stand-in for the library, to run the model on concrete inputs: one section of
  unit gain, and a filter that returns its input and, as SciPy's does, rejects an
  input that is not longer than its padding (six samples for this section).
\<close>

definition unit_section :: "real list" where
  "unit_section = [1, 0, 0, 1, 0, 0]"

definition unit_gain_lib :: signal_lib where
  "unit_gain_lib =
     \<lparr>bilinear = (\<lambda>b a fs. ([1], [1])),
      tf2sos = (\<lambda>b a. [unit_section]),
      sosfiltfilt = (\<lambda>sos x.
        if length x \<le> 6
        then Inl (ValueError ''The length of the input vector x must be greater than padlen.'')
        else Inr x)\<rparr>"

subsection \<open>The frequency response of the designed filter\<close>

text \<open>
  \<open>polyval\<close> is \<open>np.polyval\<close>: the coefficients start with the highest power.
  The analog prototype is the rational function \<open>NUM / DEN\<close> of \<open>s\<close>.
  \<open>scipy.signal.bilinear(b, a, fs)\<close> is documented to return the digital filter
  obtained by substituting \<open>2*fs*(z-1)/(z+1)\<close> for \<open>s\<close>, and
  \<open>scipy.signal.tf2sos\<close> to return second-order sections of the same transfer
  function. The response of the designed filter at \<open>f\<close> Hz is therefore the
  prototype at that substitution for \<open>z = exp(j*2*pi*f/fs)\<close>; its gain is
  expressed in decibels.
\<close>

fun polyval :: "real list \<Rightarrow> complex \<Rightarrow> complex" where
  "polyval [] z = 0"
| "polyval (c # cs) z = of_real c * z ^ length cs + polyval cs z"

definition analog_response :: "complex \<Rightarrow> complex" where
  "analog_response s = polyval NUM s / polyval DEN s"

definition digital_response :: "real \<Rightarrow> real \<Rightarrow> complex" where
  "digital_response fs f =
     (let z = cis (2 * pi * f / fs)
      in analog_response (of_real (2 * fs) * (z - 1) / (z + 1)))"

definition gain_db :: "real \<Rightarrow> real \<Rightarrow> real" where
  "gain_db fs f = 20 * log 10 (cmod (digital_response fs f))"

text \<open>
  The response of a list of sections \<open>[b0, b1, b2, a0, a1, a2]\<close>, and what it
  means for a library to be as documented at the rate \<open>fs\<close>: on the unit circle the
  sections it makes of the prototype have the response of the substitution.
\<close>

definition section_response :: "real list \<Rightarrow> complex \<Rightarrow> complex" where
  "section_response sec z = polyval (take 3 sec) z / polyval (drop 3 sec) z"

definition sos_response :: "real list list \<Rightarrow> complex \<Rightarrow> complex" where
  "sos_response sos z = prod_list (map (\<lambda>sec. section_response sec z) sos)"

definition as_documented :: "signal_lib \<Rightarrow> real \<Rightarrow> bool" where
  "as_documented L fs =
     (\<forall>\<phi>. sos_response (case bilinear L NUM DEN fs of (b_z, a_z) \<Rightarrow> tf2sos L b_z a_z) (cis \<phi>)
            = analog_response (of_real (2 * fs) * (cis \<phi> - 1) / (cis \<phi> + 1)))"

text \<open>
  The reference curve: the A-weighting of IEC 61672-1 as the standard gives it,
  \<open>A(f) = 20 lg (f4^2 f^4 / ((f^2 + f1^2) sqrt ((f^2 + f2^2) (f^2 + f3^2)) (f^2 + f4^2))) + A1000\<close>,
  with the constants of the code.
\<close>

definition a_weighting_db :: "real \<Rightarrow> real" where
  "a_weighting_db f =
     20 * log 10 (f4 ^ 2 * f ^ 4
                  / ((f ^ 2 + f1 ^ 2) * sqrt ((f ^ 2 + f2 ^ 2) * (f ^ 2 + f3 ^ 2)) * (f ^ 2 + f4 ^ 2)))
     + A1000"

section \<open>IEEE doubles\<close>

text \<open>
  A Python \<open>float\<close> is an IEEE 754 binary64 number (\<open>float64\<close> above): a
  finite number, an infinity or a NaN. A finite double is represented by the real
  number it denotes; the two zeros are one value (no function modelled here divides
  by a zero without raising, or reads the sign of a zero). \<open>Finite x\<close> is a
  double when \<open>x\<close> is representable; what is proved of every \<open>Finite x\<close> holds
  of the doubles, and the inputs of the counterexamples are doubles.

  \<open>binade x\<close> is the exponent \<open>e\<close> of the binade \<open>2^e \<le> |x| < 2^(e+1)\<close> that
  holds \<open>x\<close>, and \<open>-1022\<close> for zero and the subnormal numbers; \<open>ulp x\<close> is the
  spacing \<open>2^(e-52)\<close> of the doubles in that binade. \<open>fl x\<close> is the double
  nearest to the real number \<open>x\<close>, a tie going to the even mantissa; a rounded
  magnitude of \<open>2^1024\<close> or more is an infinity.
\<close>

definition binade :: "real \<Rightarrow> int" where
  "binade x = (if x = 0 then - 1022 else max \<lfloor>log 2 \<bar>x\<bar>\<rfloor> (- 1022))"

definition ulp :: "real \<Rightarrow> real" where
  "ulp x = 2 powr (of_int (binade x) - 52)"

definition fl :: "real \<Rightarrow> float64" where
  "fl x =
     (let y = of_int (py_round (x / ulp x)) * ulp x
      in if 2 ^ 1024 \<le> \<bar>y\<bar> then (if 0 < x then PosInf else NegInf) else Finite y)"

text \<open>The infinity of the sign of \<open>s\<close>; the product of an infinity and a zero is a NaN.\<close>

definition signed_inf :: "real \<Rightarrow> float64" where
  "signed_inf s = (if s = 0 then NaN else if 0 < s then PosInf else NegInf)"

text \<open>\<open>a * b\<close>, \<open>a + b\<close> and \<open>a - b\<close> on floats; none of them raises.\<close>

fun fmul :: "float64 \<Rightarrow> float64 \<Rightarrow> float64" where
  "fmul (Finite a) (Finite b) = fl (a * b)"
| "fmul NaN b = NaN"
| "fmul a NaN = NaN"
| "fmul (Finite a) PosInf = signed_inf a"
| "fmul (Finite a) NegInf = signed_inf (- a)"
| "fmul PosInf (Finite b) = signed_inf b"
| "fmul NegInf (Finite b) = signed_inf (- b)"
| "fmul PosInf PosInf = PosInf"
| "fmul PosInf NegInf = NegInf"
| "fmul NegInf PosInf = NegInf"
| "fmul NegInf NegInf = PosInf"



text \<open>
  \<open>a / b\<close> on floats raises \<open>ZeroDivisionError\<close> for a zero divisor, whatever
  the dividend is. A finite number divided by an infinity is a zero; an infinity
  divided by an infinity is a NaN.
\<close>

fun py_fdiv :: "float64 \<Rightarrow> float64 \<Rightarrow> error + float64" where
  "py_fdiv a (Finite b) =
     (if b = 0 then Inl ZeroDivisionError
      else Inr (case a of
                  Finite x \<Rightarrow> fl (x / b)
                | PosInf \<Rightarrow> signed_inf b
                | NegInf \<Rightarrow> signed_inf (- b)
                | NaN \<Rightarrow> NaN))"
| "py_fdiv a NaN = Inr NaN"
| "py_fdiv (Finite x) b = Inr (Finite 0)"
| "py_fdiv a b = Inr NaN"

text \<open>\<open>a < b\<close> and \<open>a <= b\<close> on floats: a comparison with a NaN is false.\<close>

fun flt :: "float64 \<Rightarrow> float64 \<Rightarrow> bool" where
  "flt (Finite a) (Finite b) = (a < b)"
| "flt NaN b = False"
| "flt a NaN = False"
| "flt a NegInf = False"
| "flt PosInf b = False"
| "flt NegInf b = True"
| "flt (Finite a) PosInf = True"

fun fle :: "float64 \<Rightarrow> float64 \<Rightarrow> bool" where
  "fle (Finite a) (Finite b) = (a \<le> b)"
| "fle NaN b = False"
| "fle a NaN = False"
| "fle NegInf b = True"
| "fle a PosInf = True"
| "fle PosInf b = False"
| "fle (Finite a) NegInf = False"

text \<open>
  \<open>max(a, b)\<close> keeps its first argument unless the second is greater:
  \<open>max(nan, b)\<close> is the NaN.
\<close>

definition py_max :: "float64 \<Rightarrow> float64 \<Rightarrow> float64" where
  "py_max a b = (if flt a b then b else a)"

text \<open>
  \<open>math.log10\<close> raises \<open>ValueError\<close> outside its domain, returns a NaN for a NaN
  and the infinity for the positive infinity. On a positive number it is taken to
  return the double nearest to the logarithm.
\<close>

fun math_log10 :: "float64 \<Rightarrow> error + float64" where
  "math_log10 (Finite x) =
     (if x \<le> 0 then Inl (ValueError ''math domain error'') else Inr (fl (log 10 x)))"
| "math_log10 NaN = Inr NaN"
| "math_log10 PosInf = Inr PosInf"
| "math_log10 NegInf = Inl (ValueError ''math domain error'')"



section \<open>Recorder: \<open>ni_recorder.py\<close>\<close>


text \<open>
  \<open>pa_to_db_spl\<close>: the literals \<open>1e-12\<close> and \<open>20.0\<close> are the doubles nearest
  to these decimals; \<open>float(p_pa)\<close> of a float is the float.
\<close>

definition pa_to_db_spl :: "float64 \<Rightarrow> float64 \<Rightarrow> error + float64" where
  "pa_to_db_spl p_pa pref =
     (let p_pa = py_max p_pa (fl (1 / 10 ^ 12))
      in bind_result (py_fdiv p_pa pref)
           (\<lambda>q. bind_result (math_log10 q) (\<lambda>l. Inr (fmul (Finite 20) l))))"

text \<open>The default of \<open>pref\<close> is \<open>20e-6\<close>.\<close>

definition pref_default :: float64 where
  "pref_default = fl (20 / 10 ^ 6)"

definition estimate_max_spl_db :: "float64 \<Rightarrow> float64 \<Rightarrow> error + float64" where
  "estimate_max_spl_db max_input_volts sensitivity_mV_per_Pa =
     bind_result (py_fdiv sensitivity_mV_per_Pa (Finite 1000))
       (\<lambda>sens_v_per_pa.
          if fle sens_v_per_pa (Finite 0) then Inr (Finite 140)
          else bind_result (py_fdiv max_input_volts sens_v_per_pa)
                 (\<lambda>pmax_pa. pa_to_db_spl pmax_pa pref_default))"

text \<open>The last line of \<open>pa_to_db_spl\<close>, applied to the quotient.\<close>

abbreviation level_of :: "float64 \<Rightarrow> error + float64" where
  "level_of q \<equiv> bind_result (math_log10 q) (\<lambda>l. Inr (fmul (Finite 20) l))"

text \<open>
  The recorder drives the acquisition hardware through the vendor driver. The model
  records every driver call as an action, in call order, a call that raises included.
\<close>

datatype path = Path (parent: "ustr list") (name: ustr)

datatype logging_operation = OPEN | OPEN_OR_CREATE | CREATE_OR_REPLACE | CREATE


record capture_args =
  physical_channel :: ustr
  tdms_path :: path
  sensitivity_mV_per_Pa :: float64
  duration_s :: float64
  has_stop_event :: bool
  group_name :: ustr
  max_input_volts_for_estimate :: float64
  logging_op :: logging_operation














section \<open>Recorder: \<open>daq_worker.py\<close>\<close>












section \<open>File names: \<open>app/utils.py\<close>\<close>

text \<open>
  The code points for which \<open>str.isspace\<close> holds; \<open>str.strip\<close> and the
  pattern \<open>\s\<close> use the same class.
\<close>

definition isspace :: "nat \<Rightarrow> bool" where
  "isspace c \<longleftrightarrow>
     (9 \<le> c \<and> c \<le> 13) \<or> (28 \<le> c \<and> c \<le> 32) \<or> c = 133 \<or> c = 160 \<or> c = 5760
       \<or> (8192 \<le> c \<and> c \<le> 8202) \<or> c = 8232 \<or> c = 8233 \<or> c = 8239 \<or> c = 8287
       \<or> c = 12288"

text \<open>\<open>str.strip\<close> removes the leading and the trailing whitespace.\<close>

definition lstrip :: "ustr \<Rightarrow> ustr" where
  "lstrip s = dropWhile isspace s"

definition rstrip :: "ustr \<Rightarrow> ustr" where
  "rstrip s = rev (dropWhile isspace (rev s))"

definition strip :: "ustr \<Rightarrow> ustr" where
  "strip s = rstrip (lstrip s)"

text \<open>\<open>re.sub(r"\s+", " ", text)\<close>: every maximal run of whitespace becomes one space.\<close>

function collapse_ws :: "ustr \<Rightarrow> ustr" where
  "collapse_ws [] = []"
| "collapse_ws (c # cs) =
     (if isspace c then 32 # collapse_ws (dropWhile isspace cs) else c # collapse_ws cs)"
  by pat_completeness auto
termination
  by (relation "measure length") (auto simp: length_dropWhile_le less_Suc_eq_le)

text \<open>
  The class \<^verbatim>\<open>[<>:"/\\|?*\x00-\x1F]\<close>, by code point: \<open><\<close> 60, \<open>>\<close> 62,
  \<open>:\<close> 58, the double quote 34, \<open>/\<close> 47, the backslash 92, \<open>|\<close> 124,
  \<open>?\<close> 63, \<open>*\<close> 42, and the control characters 0 to 31.
\<close>

definition illegal :: "nat \<Rightarrow> bool" where
  "illegal c \<longleftrightarrow> c \<in> set [60, 62, 58, 34, 47, 92, 124, 63, 42] \<or> c \<le> 31"

definition remove_illegal :: "ustr \<Rightarrow> ustr" where
  "remove_illegal s = filter (\<lambda>c. \<not> illegal c) s"

text \<open>The slice \<open>text[:m]\<close>; a negative \<open>m\<close> counts from the end.\<close>

definition slice_to :: "ustr \<Rightarrow> int \<Rightarrow> ustr" where
  "slice_to s m = (if 0 \<le> m then take (nat m) s else take (length s - nat (- m)) s)"

text \<open>\<open>None\<close> is Python's \<open>None\<close>; \<open>text or ""\<close> makes it the empty string.\<close>

definition sanitize_token :: "ustr option \<Rightarrow> int \<Rightarrow> ustr" where
  "sanitize_token text max_len =
     (let text = strip (case text of None \<Rightarrow> [] | Some t \<Rightarrow> t);
          text = collapse_ws text;
          text = remove_illegal text;
          text = strip text
      in if text \<noteq> [] then slice_to text max_len else u ''NA'')"

text \<open>Decimal digits of a non-negative integer, as \<open>str\<close> and an f-string give them.\<close>

fun str_nat :: "nat \<Rightarrow> ustr" where
  "str_nat n = (if n < 10 then [48 + n] else str_nat (n div 10) @ [48 + n mod 10])"

declare str_nat.simps [simp del]

definition zero_pad :: "nat \<Rightarrow> ustr \<Rightarrow> ustr" where
  "zero_pad w s = replicate (w - length s) 48 @ s"

text \<open>
  The clock reading of \<open>datetime.now()\<close> is an input: year, month and day, with
  \<open>1 \<le> year \<le> 9999\<close>, \<open>1 \<le> month \<le> 12\<close> and \<open>1 \<le> day \<le> 31\<close> as
  \<open>datetime\<close> has them. \<open>strftime("%Y-%m-%d")\<close> writes month and day on two
  digits and the year in decimal (on four digits from the year 1000 on; below, the C
  library decides whether zeros are put in front, and glibc puts none).
\<close>

record date =
  year :: nat
  month :: nat
  day :: nat

definition valid_date :: "date \<Rightarrow> bool" where
  "valid_date now \<longleftrightarrow>
     1 \<le> year now \<and> year now \<le> 9999 \<and> 1 \<le> month now \<and> month now \<le> 12
       \<and> 1 \<le> day now \<and> day now \<le> 31"

definition today_yyyy_mm_dd :: "date \<Rightarrow> ustr" where
  "today_yyyy_mm_dd now =
     str_nat (year now) @ u ''-'' @ zero_pad 2 (str_nat (month now))
       @ u ''-'' @ zero_pad 2 (str_nat (day now))"

definition build_tdms_filename :: "date \<Rightarrow> ustr \<Rightarrow> ustr \<Rightarrow> ustr \<Rightarrow> ustr \<Rightarrow> ustr" where
  "build_tdms_filename now project unit unit_state location =
     (let date_str = today_yyyy_mm_dd now
      in date_str @ u '' - '' @ project @ u '' - '' @ unit @ u '' - '' @ unit_state
           @ u '' - '' @ location @ u ''.tdms'')"

text \<open>
  The file name as the recorder window builds it (\<open>main_window.py\<close>, start of a
  recording): each token goes through \<open>sanitize_token\<close> with the default
  \<open>max_len = 60\<close>, then the four tokens go to \<open>build_tdms_filename\<close>.
\<close>

definition recording_filename :: "date \<Rightarrow> ustr \<Rightarrow> ustr \<Rightarrow> ustr \<Rightarrow> ustr \<Rightarrow> ustr" where
  "recording_filename now project unit state loc =
     (let proj_tok = sanitize_token (Some project) 60;
          unit_tok = sanitize_token (Some unit) 60;
          state_tok = sanitize_token (Some state) 60;
          loc_tok = sanitize_token (Some loc) 60
      in build_tdms_filename now proj_tok unit_tok state_tok loc_tok)"

subsection \<open>The sanitization as the specification words it\<close>

text \<open>
  Remove the characters \<^verbatim>\<open>< > : " / \ | ? *\<close> and the control characters, collapse
  internal whitespace to single spaces, strip surrounding whitespace, truncate to the
  bounded length, and replace an empty token by the placeholder.
\<close>

definition sanitize_spec :: "ustr \<Rightarrow> ustr" where
  "sanitize_spec text =
     (let t = take 60 (strip (collapse_ws (remove_illegal text)))
      in if t = [] then u ''NA'' else t)"

definition filename_spec :: "date \<Rightarrow> ustr \<Rightarrow> ustr \<Rightarrow> ustr \<Rightarrow> ustr \<Rightarrow> ustr" where
  "filename_spec now project unit state loc =
     today_yyyy_mm_dd now @ u '' - '' @ sanitize_spec project @ u '' - '' @ sanitize_spec unit
       @ u '' - '' @ sanitize_spec state @ u '' - '' @ sanitize_spec loc @ u ''.tdms''"

subsection \<open>Paths\<close>

text \<open>
  A path is its parent directory and its final component. The file system is the set
  of the paths that exist. \<open>stem\<close> and \<open>suffix\<close> split the final component at
  its last dot, unless that dot is the first or the last character.
\<close>

fun find_first :: "nat \<Rightarrow> ustr \<Rightarrow> nat option" where
  "find_first c [] = None"
| "find_first c (x # xs) = (if x = c then Some 0 else map_option Suc (find_first c xs))"

definition rfind :: "nat \<Rightarrow> ustr \<Rightarrow> nat option" where
  "rfind c s = map_option (\<lambda>j. length s - 1 - j) (find_first c (rev s))"

definition suffix :: "path \<Rightarrow> ustr" where
  "suffix p =
     (case rfind 46 (name p) of
        None \<Rightarrow> []
      | Some i \<Rightarrow> if 0 < i \<and> i < length (name p) - 1 then drop i (name p) else [])"

definition stem :: "path \<Rightarrow> ustr" where
  "stem p =
     (case rfind 46 (name p) of
        None \<Rightarrow> name p
      | Some i \<Rightarrow> if 0 < i \<and> i < length (name p) - 1 then take i (name p) else name p)"

text \<open>
  \<open>with_name\<close> raises \<open>ValueError\<close> on a path without a final component. The new
  name is built from the stem and the suffix of a final component here, so it holds no
  separator and is accepted.
\<close>

definition with_name :: "path \<Rightarrow> ustr \<Rightarrow> error + path" where
  "with_name p new_name =
     (if name p = [] then Inl (ValueError ''path has an empty name'')
      else Inr (Path (parent p) new_name))"

definition candidate_name :: "ustr \<Rightarrow> ustr \<Rightarrow> nat \<Rightarrow> ustr" where
  "candidate_name st sf n = st @ u '' ('' @ str_nat n @ u '')'' @ sf"

text \<open>
  The loop of \<open>increment_path\<close> from the counter \<open>n\<close> on. It runs until a
  candidate does not exist; \<open>None\<close> is the loop that never returns.
\<close>

partial_function (option) increment_loop ::
  "path set \<Rightarrow> path \<Rightarrow> ustr \<Rightarrow> ustr \<Rightarrow> nat \<Rightarrow> (error + path) option" where
  "increment_loop fs p st sf n =
     (case with_name p (candidate_name st sf n) of
        Inl e \<Rightarrow> Some (Inl e)
      | Inr candidate \<Rightarrow>
          if candidate \<notin> fs then Some (Inr candidate)
          else increment_loop fs p st sf (n + 1))"

definition increment_path :: "path set \<Rightarrow> path \<Rightarrow> (error + path) option" where
  "increment_path fs p =
     (if p \<notin> fs then Some (Inr p)
      else increment_loop fs p (stem p) (suffix p) 2)"

section \<open>Verified properties\<close>

subsection \<open>Rounding to the nearest double\<close>

lemma py_round_floor_cases: "py_round z = \<lfloor>z\<rfloor> \<or> py_round z = \<lfloor>z\<rfloor> + 1"
  unfolding py_round_def Let_def by auto

lemma py_round_ge: "of_int a \<le> z \<Longrightarrow> a \<le> py_round z"
proof -
  assume "of_int a \<le> z"
  then have "a \<le> \<lfloor>z\<rfloor>" by (simp add: le_floor_iff)
  with py_round_floor_cases [of z] show ?thesis by auto
qed

lemma py_round_le: "z \<le> of_int b \<Longrightarrow> py_round z \<le> b"
proof (cases "z = of_int b")
  case True
  then show ?thesis by (simp add: py_round_def Let_def)
next
  case False
  assume "z \<le> of_int b"
  with False have "z < of_int b" by simp
  then have "\<lfloor>z\<rfloor> < b" by (simp add: floor_less_iff)
  with py_round_floor_cases [of z] show ?thesis by auto
qed

lemma py_round_of_int: "py_round (of_int n) = n"
  by (simp add: py_round_def Let_def)

lemma py_round_error: "\<bar>of_int (py_round z) - z\<bar> \<le> 1 / 2"
proof -
  have fl: "of_int \<lfloor>z\<rfloor> \<le> z" "z < of_int \<lfloor>z\<rfloor> + 1" by linarith+
  show ?thesis
  proof (cases "z - of_int \<lfloor>z\<rfloor> < 1 / 2")
    case True
    then have "py_round z = \<lfloor>z\<rfloor>" by (simp add: py_round_def Let_def)
    with True fl show ?thesis by simp
  next
    case False
    show ?thesis
    proof (cases "1 / 2 < z - of_int \<lfloor>z\<rfloor>")
      case True
      with False have "py_round z = \<lfloor>z\<rfloor> + 1" by (simp add: py_round_def Let_def)
      with True fl show ?thesis by simp
    next
      case nt: False
      with False have "z - of_int \<lfloor>z\<rfloor> = 1 / 2" by simp
      with py_round_floor_cases [of z] show ?thesis by auto
    qed
  qed
qed

lemma ulp_pos: "0 < ulp x"
  by (simp add: ulp_def)

lemma ulp_times_52: "2 ^ 52 * ulp x = 2 powr (of_int (binade x))"
proof -
  have "(2::real) ^ 52 = 2 powr 52" by simp
  then have "2 ^ 52 * ulp x = 2 powr 52 * 2 powr (of_int (binade x) - 52)"
    by (simp only: ulp_def)
  also have "\<dots> = 2 powr (52 + (of_int (binade x) - 52))" by (simp only: powr_add)
  finally show ?thesis by simp
qed

lemma ulp_times_53: "2 ^ 53 * ulp x = 2 powr (of_int (binade x) + 1)"
proof -
  have "(2::real) ^ 53 = 2 powr 53" by simp
  then have "2 ^ 53 * ulp x = 2 powr 53 * 2 powr (of_int (binade x) - 52)"
    by (simp only: ulp_def)
  also have "\<dots> = 2 powr (53 + (of_int (binade x) - 52))" by (simp only: powr_add)
  also have "53 + (of_int (binade x) - 52) = of_int (binade x) + (1::real)" by simp
  finally show ?thesis .
qed

lemma binade_ge: "- 1022 \<le> binade x"
  by (simp add: binade_def)

lemma binade_upper: "x \<noteq> 0 \<Longrightarrow> \<bar>x\<bar> < 2 powr (of_int (binade x) + 1)"
proof -
  assume "x \<noteq> 0"
  then have pos: "0 < \<bar>x\<bar>" by simp
  have "log 2 \<bar>x\<bar> < of_int \<lfloor>log 2 \<bar>x\<bar>\<rfloor> + 1" by linarith
  also have "\<dots> \<le> of_int (binade x) + 1" using \<open>x \<noteq> 0\<close> by (simp add: binade_def)
  finally have "log 2 \<bar>x\<bar> < of_int (binade x) + 1" .
  with pos show ?thesis by (simp add: log_less_iff)
qed

lemma binade_lower: "2 powr (- 1022) \<le> \<bar>x\<bar> \<Longrightarrow> 2 powr (of_int (binade x)) \<le> \<bar>x\<bar>"
proof -
  assume a: "2 powr (- 1022) \<le> \<bar>x\<bar>"
  have "(0::real) < 2 powr (- 1022)" by simp
  with a have pos: "0 < \<bar>x\<bar>" by linarith
  from a pos have "- 1022 \<le> log 2 \<bar>x\<bar>" by (simp add: le_log_iff)
  then have "- 1022 \<le> \<lfloor>log 2 \<bar>x\<bar>\<rfloor>" by (simp add: le_floor_iff)
  then have b: "binade x = \<lfloor>log 2 \<bar>x\<bar>\<rfloor>" using pos by (simp add: binade_def)
  have "of_int \<lfloor>log 2 \<bar>x\<bar>\<rfloor> \<le> log 2 \<bar>x\<bar>" by (rule of_int_floor_le)
  with pos have "2 powr (of_int \<lfloor>log 2 \<bar>x\<bar>\<rfloor>) \<le> \<bar>x\<bar>"
    using le_log_iff [of 2 "\<bar>x\<bar>" "of_int \<lfloor>log 2 \<bar>x\<bar>\<rfloor>"] by simp
  then show ?thesis by (simp only: b)
qed

lemma binade_eqI:
  assumes "2 powr (of_int e) \<le> \<bar>x\<bar>" "\<bar>x\<bar> < 2 powr (of_int e + 1)" "- 1022 \<le> e"
  shows "binade x = e"
proof -
  have "(0::real) < 2 powr (of_int e)" by simp
  with assms(1) have pos: "0 < \<bar>x\<bar>" by linarith
  from assms(1) pos have "of_int e \<le> log 2 \<bar>x\<bar>" by (simp add: le_log_iff)
  moreover from assms(2) pos have "log 2 \<bar>x\<bar> < of_int e + 1" by (simp add: log_less_iff)
  ultimately have "\<lfloor>log 2 \<bar>x\<bar>\<rfloor> = e" by (simp add: floor_eq_iff)
  with assms(3) pos show ?thesis by (simp add: binade_def)
qed

lemma binade_subnormal:
  assumes "x \<noteq> 0" "\<bar>x\<bar> < 2 powr (- 1022)"
  shows "binade x = - 1022"
proof -
  from assms have pos: "0 < \<bar>x\<bar>" by simp
  with assms(2) have "log 2 \<bar>x\<bar> < - 1022" by (simp add: log_less_iff)
  then have "\<lfloor>log 2 \<bar>x\<bar>\<rfloor> < - 1022" by (simp add: floor_less_iff)
  then show ?thesis using assms(1) by (simp add: binade_def)
qed


lemma fl_exact:
  assumes "x = of_int n * ulp x" "\<bar>x\<bar> < 2 ^ 1024"
  shows "fl x = Finite x"
proof -
  from ulp_pos [of x] have "ulp x \<noteq> 0" by simp
  with assms(1) have "x / ulp x = of_int n" by (simp add: field_simps)
  then have "of_int (py_round (x / ulp x)) * ulp x = x"
    using assms(1) by (simp add: py_round_of_int)
  with assms(2) show ?thesis unfolding fl_def Let_def by simp
qed


text \<open>Bounds on the rounded value of a positive number.\<close>

lemma fl_pos_cases:
  assumes "0 < x"
  shows "fl x = PosInf \<or> (\<exists>y. fl x = Finite y \<and> 0 \<le> y)"
proof -
  have u: "0 < ulp x" by (rule ulp_pos)
  with assms have "0 \<le> x / ulp x" by simp
  then have "0 \<le> py_round (x / ulp x)" using py_round_ge [of 0 "x / ulp x"] by simp
  with u have "0 \<le> of_int (py_round (x / ulp x)) * ulp x" by simp
  with assms show ?thesis unfolding fl_def Let_def by auto
qed

lemma fl_pos_upper:
  assumes "0 < x" "fl x = Finite y"
  shows "y \<le> 2 powr (of_int (binade x) + 1)"
proof -
  have u: "0 < ulp x" by (rule ulp_pos)
  from assms(2) have y: "y = of_int (py_round (x / ulp x)) * ulp x"
    unfolding fl_def Let_def by (auto split: if_splits)
  from assms(1) have "\<bar>x\<bar> < 2 powr (of_int (binade x) + 1)" by (intro binade_upper) simp
  with assms(1) have "x < 2 powr (of_int (binade x) + 1)" by simp
  also have "2 powr (of_int (binade x) + 1) = 2 ^ 53 * ulp x"
    by (simp only: ulp_times_53)
  finally have "x / ulp x < 2 ^ 53" using u by (simp add: field_simps)
  then have "x / ulp x \<le> of_int (2 ^ 53)" by simp
  then have "py_round (x / ulp x) \<le> 2 ^ 53" by (rule py_round_le)
  then have "(of_int (py_round (x / ulp x)) :: real) \<le> 2 ^ 53"
    by (metis of_int_le_iff of_int_numeral of_int_power)
  then have "y \<le> 2 ^ 53 * ulp x" unfolding y using u by (simp add: mult_right_mono)
  also have "\<dots> = 2 powr (of_int (binade x) + 1)"
    by (simp only: ulp_times_53)
  finally show ?thesis .
qed

lemma fl_normal_lower:
  assumes "2 powr (- 1022) \<le> x" "fl x = Finite y"
  shows "2 powr (of_int (binade x)) \<le> y"
proof -
  have u: "0 < ulp x" by (rule ulp_pos)
  have "(0::real) < 2 powr (- 1022)" by simp
  with assms(1) have pos: "0 < x" by linarith
  from assms(2) have y: "y = of_int (py_round (x / ulp x)) * ulp x"
    unfolding fl_def Let_def by (auto split: if_splits)
  from assms(1) pos have "2 powr (of_int (binade x)) \<le> \<bar>x\<bar>" by (intro binade_lower) simp
  with pos have "2 powr (of_int (binade x)) \<le> x" by simp
  moreover have "2 powr (of_int (binade x)) = 2 ^ 52 * ulp x"
    by (simp only: ulp_times_52)
  ultimately have "2 ^ 52 \<le> x / ulp x" using u by (simp add: field_simps)
  then have "of_int (2 ^ 52) \<le> x / ulp x" by simp
  then have "2 ^ 52 \<le> py_round (x / ulp x)" by (rule py_round_ge)
  then have "(2 ^ 52 :: real) \<le> of_int (py_round (x / ulp x))"
    by (metis of_int_le_iff of_int_numeral of_int_power)
  then have "2 ^ 52 * ulp x \<le> y" unfolding y using u by (simp add: mult_right_mono)
  moreover have "2 ^ 52 * ulp x = 2 powr (of_int (binade x))"
    by (simp only: ulp_times_52)
  ultimately show ?thesis by simp
qed

lemma fl_normal_half:
  assumes "2 powr (- 1022) \<le> x" "fl x = Finite y"
  shows "x / 2 < y" "y \<le> 2 * x"
proof -
  have "(0::real) < 2 powr (- 1022)" by simp
  with assms(1) have pos: "0 < x" by linarith
  from pos have "\<bar>x\<bar> < 2 powr (of_int (binade x) + 1)" by (intro binade_upper) simp
  with pos have up: "x < 2 * 2 powr (of_int (binade x))" by (simp add: powr_add)
  from assms(1) pos have "2 powr (of_int (binade x)) \<le> \<bar>x\<bar>" by (intro binade_lower) simp
  with pos have lo: "2 powr (of_int (binade x)) \<le> x" by simp
  from fl_normal_lower [OF assms] up show "x / 2 < y" by simp
  from fl_pos_upper [OF pos assms(2)] have "y \<le> 2 * 2 powr (of_int (binade x))"
    by (simp add: powr_add)
  with lo show "y \<le> 2 * x" by simp
qed

lemma fl_nonpos:
  assumes "x \<le> 0"
  shows "fl x = NegInf \<or> (\<exists>y. fl x = Finite y \<and> y \<le> 0)"
proof -
  have u: "0 < ulp x" by (rule ulp_pos)
  with assms have "x / ulp x \<le> 0" by (simp add: divide_nonpos_pos)
  then have "py_round (x / ulp x) \<le> 0" using py_round_le [of "x / ulp x" 0] by simp
  with u have "of_int (py_round (x / ulp x)) * ulp x \<le> 0"
    by (simp add: mult_nonpos_nonneg)
  with assms show ?thesis unfolding fl_def Let_def by auto
qed

lemma ulp_le: "\<bar>x\<bar> \<le> 2 powr (of_int e) \<Longrightarrow> - 1022 \<le> e \<Longrightarrow> ulp x \<le> 2 powr (of_int e - 52)"
proof -
  assume a: "\<bar>x\<bar> \<le> 2 powr (of_int e)" and e: "- 1022 \<le> e"
  have "binade x \<le> e"
  proof (cases "x = 0")
    case True
    then show ?thesis using e by (simp add: binade_def)
  next
    case False
    then have pos: "0 < \<bar>x\<bar>" by simp
    with a have "log 2 \<bar>x\<bar> \<le> of_int e" by (simp add: log_le_iff)
    then have "\<lfloor>log 2 \<bar>x\<bar>\<rfloor> \<le> e" by (simp add: floor_le_iff)
    with e False show ?thesis by (simp add: binade_def)
  qed
  then show ?thesis by (simp add: ulp_def)
qed

lemma fl_not_nan: "fl x \<noteq> NaN"
  by (simp add: fl_def Let_def)

lemma fl_Finite_lt: "fl x = Finite y \<Longrightarrow> \<bar>y\<bar> < 2 ^ 1024"
  unfolding fl_def Let_def by (auto split: if_splits)

lemma rounded_error: "\<bar>of_int (py_round (x / ulp x)) * ulp x - x\<bar> \<le> ulp x / 2"
proof -
  have u: "0 < ulp x" by (rule ulp_pos)
  have "\<bar>of_int (py_round (x / ulp x)) - x / ulp x\<bar> \<le> 1 / 2" by (rule py_round_error)
  then have "\<bar>of_int (py_round (x / ulp x)) - x / ulp x\<bar> * ulp x \<le> 1 / 2 * ulp x"
    using u by (simp add: mult_right_mono)
  also have "\<bar>of_int (py_round (x / ulp x)) - x / ulp x\<bar> * ulp x
      = \<bar>(of_int (py_round (x / ulp x)) - x / ulp x) * ulp x\<bar>"
    using u by (simp add: abs_mult)
  also have "(of_int (py_round (x / ulp x)) - x / ulp x) * ulp x
      = of_int (py_round (x / ulp x)) * ulp x - x"
    using u by (simp add: field_simps)
  finally show ?thesis by simp
qed

lemma fl_finite_bound:
  assumes "\<bar>x\<bar> \<le> 2 powr (of_int e)" "- 1022 \<le> e" "e \<le> 1023"
  shows "\<exists>y. fl x = Finite y \<and> \<bar>y\<bar> < 2 powr (of_int e + 1)"
proof -
  define y where "y = of_int (py_round (x / ulp x)) * ulp x"
  have "ulp x \<le> 2 powr (of_int e - 52)" by (rule ulp_le [OF assms(1,2)])
  also have "\<dots> = 2 powr (of_int e) * 2 powr (- 52)" by (simp add: powr_diff powr_minus field_simps)
  also have "\<dots> \<le> 2 powr (of_int e) * 1"
    by (intro mult_left_mono) (simp_all add: powr_minus field_simps)
  finally have u: "ulp x \<le> 2 powr (of_int e)" by simp
  have pe: "0 < (2::real) powr (of_int e)" by simp
  have "\<bar>y - x\<bar> \<le> ulp x / 2" unfolding y_def by (rule rounded_error)
  with u pe have "\<bar>y - x\<bar> < 2 powr (of_int e)" by linarith
  with assms(1) have "\<bar>y\<bar> < 2 * 2 powr (of_int e)" by linarith
  then have b: "\<bar>y\<bar> < 2 powr (of_int e + 1)" by (simp add: powr_add)
  have "of_int e + 1 \<le> (1024::real)" using assms(3) by simp
  then have "(2::real) powr (of_int e + 1) \<le> 2 powr 1024" by (simp only: powr_mono one_le_numeral)
  also have "(2::real) powr 1024 = 2 ^ 1024" by simp
  finally have "\<bar>y\<bar> < 2 ^ 1024" using b by linarith
  then have "fl x = Finite y" unfolding fl_def Let_def y_def by simp
  with b show ?thesis by blast
qed

subsection \<open>The level estimate\<close>

lemma tiny_le: "(2::real) powr (- 1022) \<le> 1 / 10 ^ 8"
proof -
  have "(2::real) powr (- 1022) = 1 / 2 ^ 1022" by (simp add: powr_minus field_simps)
  also have "\<dots> \<le> 1 / 10 ^ 8" by simp
  finally show ?thesis .
qed

lemma clamp_constant: "\<exists>c. fl (1 / 10 ^ 12) = Finite c \<and> 1 / (2 * 10 ^ 12) < c \<and> c \<le> 2 / 10 ^ 12"
proof -
  have "\<bar>1 / 10 ^ 12 :: real\<bar> \<le> 2 powr (of_int 0)" by simp
  from fl_finite_bound [OF this] obtain c where c: "fl (1 / 10 ^ 12) = Finite c" by auto
  have "(2::real) powr (- 1022) = 1 / 2 ^ 1022" by (simp add: powr_minus field_simps)
  also have "\<dots> \<le> 1 / 10 ^ 12" by simp
  finally have n: "(2::real) powr (- 1022) \<le> 1 / 10 ^ 12" .
  from fl_normal_half [OF n c] c show ?thesis by simp
qed

lemma pref_constant: "\<exists>p. pref_default = Finite p \<and> 1 / 10 ^ 5 < p \<and> p \<le> 4 / 10 ^ 5"
proof -
  have "\<bar>20 / 10 ^ 6 :: real\<bar> \<le> 2 powr (of_int 0)" by simp
  from fl_finite_bound [OF this] obtain p where p: "fl (20 / 10 ^ 6) = Finite p" by auto
  have "(2::real) powr (- 1022) = 1 / 2 ^ 1022" by (simp add: powr_minus field_simps)
  also have "\<dots> \<le> 20 / 10 ^ 6" by simp
  finally have n: "(2::real) powr (- 1022) \<le> 20 / 10 ^ 6" .
  from fl_normal_half [OF n p] p show ?thesis by (simp add: pref_default_def)
qed

lemma py_max_clamp:
  "py_max q (Finite c) =
     (case q of Finite x \<Rightarrow> if x < c then Finite c else Finite x
              | PosInf \<Rightarrow> PosInf | NegInf \<Rightarrow> Finite c | NaN \<Rightarrow> NaN)"
  by (cases q) (simp_all add: py_max_def)

lemma quotient_rounds_normal:
  assumes "1 / (2 * 10 ^ 12) < z" "0 < p" "p \<le> 4 / 10 ^ 5"
  shows "fl (z / p) = PosInf \<or> (\<exists>w. fl (z / p) = Finite w \<and> 2 powr (- 1022) \<le> w \<and> w < 2 ^ 1024)"
proof -
  from assms have zpos: "0 < z" by (smt (verit) divide_pos_pos zero_less_numeral zero_less_power zero_less_one mult_pos_pos)
  have "1 / 10 ^ 8 \<le> (1 / (2 * 10 ^ 12)) / (4 / 10 ^ 5 :: real)" by simp
  also have "\<dots> \<le> z / (4 / 10 ^ 5)" using assms(1) by (simp add: divide_right_mono)
  also have "\<dots> \<le> z / p" using assms(2,3) zpos by (intro divide_left_mono) simp_all
  finally have "1 / 10 ^ 8 \<le> z / p" .
  with tiny_le have n: "2 powr (- 1022) \<le> z / p" by linarith
  have "(0::real) < 2 powr (- 1022)" by simp
  with n have pos: "0 < z / p" by linarith
  from fl_pos_cases [OF pos] show ?thesis
  proof
    assume "fl (z / p) = PosInf"
    then show ?thesis by simp
  next
    assume "\<exists>w. fl (z / p) = Finite w \<and> 0 \<le> w"
    then obtain w where w: "fl (z / p) = Finite w" by blast
    from fl_normal_lower [OF n w] have "2 powr (of_int (binade (z / p))) \<le> w" .
    moreover have "(2::real) powr (- 1022) \<le> 2 powr (of_int (binade (z / p)))"
      using binade_ge [of "z / p"] by (simp only: powr_mono one_le_numeral of_int_le_iff of_int_minus of_int_numeral)
    ultimately have "2 powr (- 1022) \<le> w" by linarith
    moreover from fl_Finite_lt [OF w] have "w < 2 ^ 1024" by simp
    ultimately show ?thesis using w by blast
  qed
qed

lemma log10_rounds_finite:
  assumes "2 powr (- 1022) \<le> w" "w < 2 ^ 1024"
  shows "\<exists>l. fl (log 10 w) = Finite l \<and> \<bar>l\<bar> < 2 powr 11"
proof -
  have "(0::real) < 2 powr (- 1022)" by simp
  with assms(1) have wpos: "0 < w" by linarith
  have lo: "- 1022 \<le> log 2 w" using assms(1) wpos by (simp add: le_log_iff)
  have hi: "log 2 w < 1024" using assms(2) wpos by (simp add: log_less_iff)
  from lo hi have b2: "\<bar>log 2 w\<bar> \<le> 1024" by linarith
  have l10: "1 \<le> log 2 (10::real)" by (simp add: le_log_iff)
  have eq: "log 10 w = log 2 w / log 2 10" by (rule log_base_change) simp_all
  have "\<bar>log 10 w\<bar> = \<bar>log 2 w\<bar> / log 2 10" using l10 by (simp add: eq)
  also have "\<dots> \<le> \<bar>log 2 w\<bar> / 1" using l10 by (intro divide_left_mono) simp_all
  finally have "\<bar>log 10 w\<bar> \<le> 1024" using b2 by simp
  then have "\<bar>log 10 w\<bar> \<le> 2 powr (of_int 10)" by simp
  from fl_finite_bound [OF this] show ?thesis by simp
qed

lemma scaled_rounds_finite:
  assumes "\<bar>l\<bar> < 2 powr 11"
  shows "\<exists>r. fl (20 * l) = Finite r"
proof -
  from assms have "\<bar>l\<bar> < 2048" by simp
  then have "\<bar>20 * l\<bar> \<le> 65536" by (simp add: abs_mult)
  then have "\<bar>20 * l\<bar> \<le> 2 powr (of_int 16)" by simp
  from fl_finite_bound [OF this] show ?thesis by auto
qed

lemma level_of_normal:
  assumes "2 powr (- 1022) \<le> w" "w < 2 ^ 1024"
  shows "\<exists>r. level_of (Finite w) = Inr (Finite r)"
proof -
  have "(0::real) < 2 powr (- 1022)" by simp
  with assms(1) have wpos: "0 < w" by linarith
  from log10_rounds_finite [OF assms] obtain l where l: "fl (log 10 w) = Finite l" "\<bar>l\<bar> < 2 powr 11"
    by blast
  from scaled_rounds_finite [OF l(2)] obtain r where "fl (20 * l) = Finite r" by blast
  with l(1) wpos show ?thesis by (simp add: bind_result_def)
qed

lemma level_of_inf: "level_of PosInf = Inr PosInf"
  by (simp add: bind_result_def signed_inf_def)

lemma level_of_nan: "level_of NaN = Inr NaN"
  by (simp add: bind_result_def)

lemma pa_to_db_spl_unfold:
  assumes "fl (1 / 10 ^ 12) = Finite c"
  shows "pa_to_db_spl q pref =
     bind_result (py_fdiv (case q of Finite x \<Rightarrow> if x < c then Finite c else Finite x
              | PosInf \<Rightarrow> PosInf | NegInf \<Rightarrow> Finite c | NaN \<Rightarrow> NaN) pref) level_of"
  unfolding pa_to_db_spl_def Let_def assms py_max_clamp by (rule refl)

lemma clamped_level:
  assumes "1 / (2 * 10 ^ 12) < z" "0 < p" "p \<le> 4 / 10 ^ 5"
  shows "bind_result (py_fdiv (Finite z) (Finite p)) level_of = Inr PosInf
         \<or> (\<exists>r. bind_result (py_fdiv (Finite z) (Finite p)) level_of = Inr (Finite r))"
proof -
  from assms(2) have e: "bind_result (py_fdiv (Finite z) (Finite p)) level_of = level_of (fl (z / p))"
    by (simp add: bind_result_def)
  from quotient_rounds_normal [OF assms] show ?thesis
  proof
    assume "fl (z / p) = PosInf"
    then show ?thesis unfolding e by (simp add: bind_result_def signed_inf_def)
  next
    assume "\<exists>w. fl (z / p) = Finite w \<and> 2 powr (- 1022) \<le> w \<and> w < 2 ^ 1024"
    then obtain w where w: "fl (z / p) = Finite w" "2 powr (- 1022) \<le> w" "w < 2 ^ 1024" by blast
    from level_of_normal [OF w(2,3)] show ?thesis unfolding e w(1) by blast
  qed
qed

lemma clamped_level_finite:
  assumes "1 / (2 * 10 ^ 12) < z" "1 / 10 ^ 5 < p" "p \<le> 4 / 10 ^ 5" "z \<le> 2 ^ 1001"
  shows "\<exists>r. bind_result (py_fdiv (Finite z) (Finite p)) level_of = Inr (Finite r)"
proof -
  from assms(2) have ppos: "0 < p" by (smt (verit) divide_pos_pos zero_less_numeral zero_less_power zero_less_one)
  from assms(1) have zpos: "0 < z" by (smt (verit) divide_pos_pos zero_less_numeral zero_less_power zero_less_one mult_pos_pos)
  from ppos have e: "bind_result (py_fdiv (Finite z) (Finite p)) level_of = level_of (fl (z / p))"
    by (simp add: bind_result_def)
  have "z / p \<le> 2 ^ 1001 / p" using assms(4) ppos by (simp add: divide_right_mono)
  also have "\<dots> \<le> 2 ^ 1001 / (1 / 10 ^ 5)" using assms(2) ppos by (intro divide_left_mono) simp_all
  also have "\<dots> \<le> 2 ^ 1018" by simp
  finally have "z / p \<le> 2 ^ 1018" .
  moreover have "0 < z / p" using zpos ppos by simp
  ultimately have "\<bar>z / p\<bar> \<le> 2 powr (of_int 1018)" by simp
  from fl_finite_bound [OF this] obtain w where w: "fl (z / p) = Finite w" by auto
  from quotient_rounds_normal [OF assms(1) ppos assms(3)] w
  have "2 powr (- 1022) \<le> w \<and> w < 2 ^ 1024" by simp
  then obtain r where "level_of (Finite w) = Inr (Finite r)" using level_of_normal by blast
  then show ?thesis unfolding e w by blast
qed

lemma pa_to_db_spl_cases:
  "(pa_to_db_spl q pref_default = Inr NaN \<and> q = NaN)
   \<or> (pa_to_db_spl q pref_default = Inr PosInf \<and> q \<noteq> NaN)
   \<or> ((\<exists>r. pa_to_db_spl q pref_default = Inr (Finite r)) \<and> q \<noteq> NaN \<and> q \<noteq> PosInf)"
proof -
  from clamp_constant obtain c where c: "fl (1 / 10 ^ 12) = Finite c" "1 / (2 * 10 ^ 12) < c" by blast
  from pref_constant obtain p where p: "pref_default = Finite p" "1 / 10 ^ 5 < p" "p \<le> 4 / 10 ^ 5"
    by blast
  from p(2) have ppos: "0 < p" by (smt (verit) divide_pos_pos zero_less_numeral zero_less_power zero_less_one)
  show ?thesis
  proof (cases q)
    case (Finite x)
    define z where "z = (if x < c then c else x)"
    have z: "1 / (2 * 10 ^ 12) < z" using c(2) by (simp add: z_def)
    have "pa_to_db_spl q pref_default = bind_result (py_fdiv (Finite z) (Finite p)) level_of"
      by (simp add: pa_to_db_spl_unfold [OF c(1)] p(1) Finite z_def)
    with clamped_level [OF z ppos p(3)] Finite show ?thesis by auto
  next
    case PosInf
    then show ?thesis using ppos
      by (simp add: pa_to_db_spl_unfold [OF c(1)] p(1) bind_result_def signed_inf_def)
  next
    case NegInf
    have "pa_to_db_spl q pref_default = bind_result (py_fdiv (Finite c) (Finite p)) level_of"
      by (simp add: pa_to_db_spl_unfold [OF c(1)] p(1) NegInf)
    with clamped_level [OF c(2) ppos p(3)] NegInf show ?thesis by auto
  next
    case NaN
    then show ?thesis using ppos
      by (simp add: pa_to_db_spl_unfold [OF c(1)] p(1) bind_result_def)
  qed
qed

lemma pa_to_db_spl_finite:
  assumes "q = NegInf \<or> (\<exists>x. q = Finite x \<and> x \<le> 2 ^ 1001)"
  shows "\<exists>r. pa_to_db_spl q pref_default = Inr (Finite r)"
proof -
  from clamp_constant obtain c where c: "fl (1 / 10 ^ 12) = Finite c" "1 / (2 * 10 ^ 12) < c"
    "c \<le> 2 / 10 ^ 12" by blast
  from pref_constant obtain p where p: "pref_default = Finite p" "1 / 10 ^ 5 < p" "p \<le> 4 / 10 ^ 5"
    by blast
  have c1: "c \<le> 2 ^ 1001" using c(3) by simp
  from assms show ?thesis
  proof
    assume q: "q = NegInf"
    have "pa_to_db_spl q pref_default = bind_result (py_fdiv (Finite c) (Finite p)) level_of"
      by (simp add: pa_to_db_spl_unfold [OF c(1)] p(1) q)
    with clamped_level_finite [OF c(2) p(2,3) c1] show ?thesis by simp
  next
    assume "\<exists>x. q = Finite x \<and> x \<le> 2 ^ 1001"
    then obtain x where x: "q = Finite x" "x \<le> 2 ^ 1001" by blast
    define z where "z = (if x < c then c else x)"
    have z: "1 / (2 * 10 ^ 12) < z" using c(2) by (simp add: z_def)
    have z1: "z \<le> 2 ^ 1001" using c1 x(2) by (simp add: z_def)
    have "pa_to_db_spl q pref_default = bind_result (py_fdiv (Finite z) (Finite p)) level_of"
      by (simp add: pa_to_db_spl_unfold [OF c(1)] p(1) x(1) z_def)
    with clamped_level_finite [OF z p(2,3) z1] show ?thesis by simp
  qed
qed

lemma py_fdiv_total: "b \<noteq> Finite 0 \<Longrightarrow> \<exists>q. py_fdiv a b = Inr q"
  by (cases b; cases a) simp_all

lemma py_fdiv_finite_not_nan: "b \<noteq> Finite 0 \<Longrightarrow> b \<noteq> NaN \<Longrightarrow> py_fdiv (Finite a) b \<noteq> Inr NaN"
  by (cases b) (simp_all add: fl_not_nan)

lemma sensitivity_volts:
  "py_fdiv s (Finite 1000) =
     Inr (case s of Finite b \<Rightarrow> fl (b / 1000) | PosInf \<Rightarrow> PosInf | NegInf \<Rightarrow> NegInf | NaN \<Rightarrow> NaN)"
  by (cases s) (simp_all add: signed_inf_def)

lemma estimate_unfold:
  "estimate_max_spl_db v s =
     (let sens = (case s of Finite b \<Rightarrow> fl (b / 1000) | PosInf \<Rightarrow> PosInf | NegInf \<Rightarrow> NegInf | NaN \<Rightarrow> NaN)
      in if fle sens (Finite 0) then Inr (Finite 140)
         else bind_result (py_fdiv v sens) (\<lambda>pmax_pa. pa_to_db_spl pmax_pa pref_default))"
  by (cases s) (simp_all add: estimate_max_spl_db_def bind_result_def Let_def signed_inf_def)

lemma estimate_tail_total:
  "\<exists>r. (if fle sens (Finite 0) then Inr (Finite 140)
         else bind_result (py_fdiv v sens) (\<lambda>pmax_pa. pa_to_db_spl pmax_pa pref_default)) = Inr r
        \<and> r \<noteq> NegInf"
proof (cases "fle sens (Finite 0)")
  case True
  then show ?thesis by simp
next
  case False
  then have "sens \<noteq> Finite 0" by auto
  from py_fdiv_total [OF this] obtain q where q: "py_fdiv v sens = Inr q" by blast
  from pa_to_db_spl_cases [of q] obtain r where "pa_to_db_spl q pref_default = Inr r" "r \<noteq> NegInf"
    by auto
  with False q show ?thesis by (simp add: bind_result_def)
qed

lemma estimate_never_raises: "\<exists>r. estimate_max_spl_db v s = Inr r \<and> r \<noteq> NegInf"
  unfolding estimate_unfold Let_def by (rule estimate_tail_total)

lemma estimate_not_positive:
  assumes "fle s (Finite 0)"
  shows "estimate_max_spl_db v s = Inr (Finite 140)"
proof (cases s)
  case (Finite b)
  with assms have "b / 1000 \<le> 0" by simp
  from fl_nonpos [OF this] have "fle (fl (b / 1000)) (Finite 0)" by auto
  then show ?thesis by (simp add: estimate_unfold Finite)
next
  case PosInf
  with assms show ?thesis by simp
next
  case NegInf
  then show ?thesis by (simp add: estimate_unfold)
next
  case NaN
  with assms show ?thesis by simp
qed

lemma estimate_nan: "estimate_max_spl_db v NaN = Inr NaN"
proof -
  have "py_fdiv v NaN = Inr NaN" by (cases v) simp_all
  moreover have "pa_to_db_spl NaN pref_default = Inr NaN" using pa_to_db_spl_cases [of NaN] by simp
  ultimately show ?thesis by (simp add: estimate_unfold bind_result_def)
qed

lemma estimate_finite_not_nan: "estimate_max_spl_db (Finite a) (Finite b) \<noteq> Inr NaN"
proof (cases "fle (fl (b / 1000)) (Finite 0)")
  case True
  then show ?thesis by (simp add: estimate_unfold)
next
  case False
  then have n0: "fl (b / 1000) \<noteq> Finite 0" by auto
  from py_fdiv_total [OF this] obtain q where q: "py_fdiv (Finite a) (fl (b / 1000)) = Inr q" by blast
  from py_fdiv_finite_not_nan [OF n0 fl_not_nan, of a] q have "q \<noteq> NaN" by auto
  with pa_to_db_spl_cases [of q] have "pa_to_db_spl q pref_default \<noteq> Inr NaN" by auto
  with False q show ?thesis by (simp add: estimate_unfold bind_result_def)
qed

lemma estimate_finite:
  assumes "1000 / 2 ^ 1022 \<le> b" "a * 2000 \<le> 2 ^ 1000 * b"
  shows "\<exists>y. estimate_max_spl_db (Finite a) (Finite b) = Inr (Finite y)"
proof (cases "fle (fl (b / 1000)) (Finite 0)")
  case True
  then show ?thesis by (simp add: estimate_unfold)
next
  case False
  have bpos: "0 < b" using assms(1) by (smt (verit) divide_pos_pos zero_less_numeral zero_less_power)
  have "(2::real) powr (- 1022) = 1 / 2 ^ 1022" by (simp add: powr_minus field_simps)
  also have "\<dots> \<le> b / 1000" using assms(1) by (simp add: field_simps)
  finally have n: "2 powr (- 1022) \<le> b / 1000" .
  have tail: "estimate_max_spl_db (Finite a) (Finite b)
      = bind_result (py_fdiv (Finite a) (fl (b / 1000))) (\<lambda>pmax_pa. pa_to_db_spl pmax_pa pref_default)"
    using False by (simp add: estimate_unfold)
  have "\<exists>q. py_fdiv (Finite a) (fl (b / 1000)) = Inr q
            \<and> (q = NegInf \<or> (\<exists>x. q = Finite x \<and> x \<le> 2 ^ 1001))"
  proof (cases "fl (b / 1000)")
    case (Finite y)
    from fl_normal_half(1) [OF n Finite] have y: "b / 2000 < y" by simp
    with bpos have ypos: "0 < y" by (smt (verit) divide_pos_pos zero_less_numeral)
    then have d: "py_fdiv (Finite a) (fl (b / 1000)) = Inr (fl (a / y))" by (simp add: Finite)
    show ?thesis
    proof (cases "0 < a")
      case True
      have "a / y \<le> a / (b / 2000)" using y True bpos ypos by (intro divide_left_mono) simp_all
      also have "\<dots> = a * 2000 / b" by simp
      also have "\<dots> \<le> 2 ^ 1000" using assms(2) bpos by (simp add: field_simps)
      finally have "a / y \<le> 2 ^ 1000" .
      moreover have "0 < a / y" using True ypos by simp
      ultimately have "\<bar>a / y\<bar> \<le> 2 powr (of_int 1000)" by simp
      from fl_finite_bound [OF this] obtain x where x: "fl (a / y) = Finite x" "\<bar>x\<bar> < 2 powr (of_int 1000 + 1)"
        by auto
      from x(2) have "x \<le> 2 ^ 1001" by simp
      with x(1) d show ?thesis by simp
    next
      case False
      then have "a / y \<le> 0" using ypos by (simp add: divide_nonpos_pos)
      from fl_nonpos [OF this] have "fl (a / y) = NegInf \<or> (\<exists>x. fl (a / y) = Finite x \<and> x \<le> 2 ^ 1001)"
        by (smt (verit) zero_le_power zero_le_numeral)
      with d show ?thesis by auto
    qed
  next
    case PosInf
    then show ?thesis by simp
  next
    case NegInf
    with False show ?thesis by simp
  next
    case NaN
    with fl_not_nan show ?thesis by blast
  qed
  then obtain q where q: "py_fdiv (Finite a) (fl (b / 1000)) = Inr q"
    "q = NegInf \<or> (\<exists>x. q = Finite x \<and> x \<le> 2 ^ 1001)" by blast
  from pa_to_db_spl_finite [OF q(2)] show ?thesis unfolding tail q(1) by (simp add: bind_result_def)
qed

text \<open>Overflow, and the smallest normal double.\<close>

lemma fl_overflow:
  assumes "2 ^ 1024 \<le> x"
  shows "fl x = PosInf"
proof -
  have u: "0 < ulp x" by (rule ulp_pos)
  have x1: "(2::real) powr 1024 \<le> x" using assms by simp
  then have pos: "0 < x" by (smt (verit) powr_gt_zero)
  have "(2::real) powr (- 1022) \<le> 2 powr 1024" by (simp only: powr_mono one_le_numeral) 
  with x1 have n: "2 powr (- 1022) \<le> \<bar>x\<bar>" by linarith
  from binade_lower [OF n] pos have lo: "2 powr (of_int (binade x)) \<le> x" by simp
  have "1024 \<le> log 2 \<bar>x\<bar>" using x1 pos by (simp add: le_log_iff)
  then have "1024 \<le> \<lfloor>log 2 \<bar>x\<bar>\<rfloor>" by (simp add: le_floor_iff)
  then have "1024 \<le> binade x" using pos by (simp add: binade_def)
  then have "(1024::real) \<le> of_int (binade x)" by linarith
  then have "(2::real) powr 1024 \<le> 2 powr (of_int (binade x))" by (simp only: powr_mono one_le_numeral)
  then have big: "(2::real) ^ 1024 \<le> 2 powr (of_int (binade x))" by simp
  have "2 powr (of_int (binade x)) = 2 ^ 52 * ulp x" by (simp only: ulp_times_52)
  with lo have "2 ^ 52 \<le> x / ulp x" using u by (simp add: field_simps)
  then have "of_int (2 ^ 52) \<le> x / ulp x" by simp
  then have "2 ^ 52 \<le> py_round (x / ulp x)" by (rule py_round_ge)
  then have "(2 ^ 52 :: real) \<le> of_int (py_round (x / ulp x))"
    by (metis of_int_le_iff of_int_numeral of_int_power)
  then have "2 ^ 52 * ulp x \<le> of_int (py_round (x / ulp x)) * ulp x" using u by (simp add: mult_right_mono)
  moreover have "2 ^ 52 * ulp x = 2 powr (of_int (binade x))" by (simp only: ulp_times_52)
  ultimately have "2 ^ 1024 \<le> of_int (py_round (x / ulp x)) * ulp x" using big by linarith
  then have "2 ^ 1024 \<le> \<bar>of_int (py_round (x / ulp x)) * ulp x\<bar>" by linarith
  with pos show ?thesis unfolding fl_def Let_def by simp
qed

lemma fl_power_of_two:
  assumes "- 1022 \<le> e" "e \<le> 1023"
  shows "fl (2 powr (of_int e)) = Finite (2 powr (of_int e))"
proof -
  have b: "binade (2 powr (of_int e)) = e"
    by (rule binade_eqI) (use assms in \<open>simp_all add: powr_add\<close>)
  have "2 powr (of_int e) = 2 ^ 52 * ulp (2 powr (of_int e))"
    by (simp only: ulp_times_52 b)
  then have "2 powr (of_int e) = of_int (2 ^ 52) * ulp (2 powr (of_int e))" by simp
  moreover have "\<bar>2 powr (of_int e)\<bar> < (2::real) ^ 1024"
  proof -
    have "of_int e < (1024::real)" using assms(2) by simp
    then have "(2::real) powr (of_int e) < 2 powr 1024" by (intro powr_less_mono) simp_all
    then show ?thesis by simp
  qed
  ultimately show ?thesis by (rule fl_exact)
qed

lemma smallest_normal: "fl (1 / 2 ^ 1022) = Finite (1 / 2 ^ 1022)"
proof -
  have e: "(2::real) powr (of_int (- 1022)) = 1 / 2 ^ 1022" by (simp add: powr_minus field_simps)
  from fl_power_of_two [of "- 1022", unfolded e] show ?thesis by simp
qed

text \<open>
  Claim C9, as stated, fails: the estimate is not always finite. With 5 V and the
  sensitivity \<open>1000 * 2^-1022\<close> mV/Pa, which is positive, the sensitivity in V/Pa
  is the smallest normal double, the quotient \<open>5 / 2^-1022\<close> overflows, and the
  estimate is the positive infinity.
\<close>

theorem estimate_max_spl_db_overflows:
  "estimate_max_spl_db (Finite 5) (Finite (1000 / 2 ^ 1022)) = Inr PosInf"
proof -
  have s: "fl (1000 / 2 ^ 1022 / 1000) = Finite (1 / 2 ^ 1022)" using smallest_normal by simp
  have "(2::real) ^ 1024 \<le> 5 / (1 / 2 ^ 1022)" by simp
  then have q: "fl (5 / (1 / 2 ^ 1022)) = PosInf" by (rule fl_overflow)
  have i: "pa_to_db_spl PosInf pref_default = Inr PosInf" using pa_to_db_spl_cases [of PosInf] by simp
  show ?thesis unfolding estimate_unfold Let_def float64.case s using q i
    by (simp add: bind_result_def)
qed

text \<open>
  A positive sensitivity can also take the branch of the non-positive ones: the
  smallest subnormal double divided by 1000 rounds to zero.
\<close>

lemma estimate_max_spl_db_underflows:
  "estimate_max_spl_db (Finite 5) (Finite (1 / 2 ^ 1074)) = Inr (Finite 140)"
proof -
  define x :: real where "x = 1 / 2 ^ 1074 / 1000"
  have xpos: "x \<noteq> 0" by (simp add: x_def)
  have "\<bar>x\<bar> < 1 / 2 ^ 1022" by (simp add: x_def)
  also have "\<dots> = 2 powr (- 1022)" by (simp add: powr_minus field_simps)
  finally have "binade x = - 1022" using xpos by (intro binade_subnormal)
  then have "ulp x = 2 powr (- 1074)" by (simp add: ulp_def)
  also have "\<dots> = 1 / 2 ^ 1074" by (simp add: powr_minus field_simps)
  finally have u: "ulp x = 1 / 2 ^ 1074" .
  have "x / ulp x = 1 / 1000" unfolding u by (simp add: x_def)
  then have "py_round (x / ulp x) = 0" by (simp add: py_round_def Let_def)
  then have "fl x = Finite 0" by (simp add: fl_def Let_def)
  then show ?thesis unfolding estimate_unfold Let_def float64.case x_def [symmetric] by simp
qed

text \<open>
  Claim C9, amended. For all arguments, NaN and the infinities included, the estimate
  raises no exception and is never the negative infinity; the same holds of
  \<open>pa_to_db_spl\<close> at the default reference. For every sensitivity \<open>\<le> 0\<close> the
  estimate is exactly 140. For finite arguments it is not a NaN. It is a finite
  number when the sensitivity is at least \<open>1000 * 2^-1022\<close> mV/Pa and the voltage is at
  most \<open>2^1000 / 2000\<close> times the sensitivity, which every sensitivity and voltage
  of the user interface is.
\<close>

theorem estimate_max_spl_db_total:
  "(\<exists>r. estimate_max_spl_db v s = Inr r \<and> r \<noteq> NegInf)
   \<and> (\<exists>r. pa_to_db_spl p pref_default = Inr r \<and> r \<noteq> NegInf)
   \<and> (fle s (Finite 0) \<longrightarrow> estimate_max_spl_db v s = Inr (Finite 140))
   \<and> (isfinite v \<and> isfinite s \<longrightarrow> estimate_max_spl_db v s \<noteq> Inr NaN)
   \<and> (\<forall>a b. v = Finite a \<and> s = Finite b \<and> 1000 / 2 ^ 1022 \<le> b \<and> a * 2000 \<le> 2 ^ 1000 * b
         \<longrightarrow> (\<exists>y. estimate_max_spl_db v s = Inr (Finite y)))"
proof -
  have c2: "\<exists>r. pa_to_db_spl p pref_default = Inr r \<and> r \<noteq> NegInf"
    using pa_to_db_spl_cases [of p] by auto
  have c4: "estimate_max_spl_db v s \<noteq> Inr NaN" if "isfinite v \<and> isfinite s"
  proof -
    from that obtain a b where "v = Finite a" "s = Finite b" by (cases v; cases s) auto
    then show ?thesis by (simp add: estimate_finite_not_nan)
  qed
  have c5: "\<exists>y. estimate_max_spl_db v s = Inr (Finite y)"
    if "v = Finite a \<and> s = Finite b \<and> 1000 / 2 ^ 1022 \<le> b \<and> a * 2000 \<le> 2 ^ 1000 * b" for a b
    using that estimate_finite [of b a] by blast
  from estimate_never_raises [of v s] c2 estimate_not_positive [of s v] c4 c5
  show ?thesis by blast
qed

theorem estimate_max_spl_db_total_witness:
  "estimate_max_spl_db (Finite 5) (Finite 0) = Inr (Finite 140)
   \<and> estimate_max_spl_db (Finite 5) (Finite 50) \<noteq> Inr NaN
   \<and> (\<exists>y. estimate_max_spl_db (Finite 5) (Finite 50) = Inr (Finite y))"
proof -
  note t0 = estimate_max_spl_db_total [of "Finite 5" "Finite 0" "Finite 0"]
  note t1 = estimate_max_spl_db_total [of "Finite 5" "Finite 50" "Finite 0"]
  have h0: "fle (Finite 0) (Finite 0)" by simp
  from mp [OF conjunct1 [OF conjunct2 [OF conjunct2 [OF t0]]] h0]
  have a: "estimate_max_spl_db (Finite 5) (Finite 0) = Inr (Finite 140)" .
  have h1: "isfinite (Finite 5) \<and> isfinite (Finite 50)" by simp
  from mp [OF conjunct1 [OF conjunct2 [OF conjunct2 [OF conjunct2 [OF t1]]]] h1]
  have b: "estimate_max_spl_db (Finite 5) (Finite 50) \<noteq> Inr NaN" .
  have h2: "Finite 5 = Finite (5::real) \<and> Finite 50 = Finite (50::real)
      \<and> 1000 / 2 ^ 1022 \<le> (50::real) \<and> (5::real) * 2000 \<le> 2 ^ 1000 * 50" by simp
  from mp [OF spec [OF spec [OF conjunct2 [OF conjunct2 [OF conjunct2 [OF conjunct2 [OF t1]]]]]] h2]
  have c: "\<exists>y. estimate_max_spl_db (Finite 5) (Finite 50) = Inr (Finite y)" .
  from a b c show ?thesis by blast
qed

subsection \<open>Rounding of sample counts\<close>











subsection \<open>The recorder\<close>























subsection \<open>The sample count of a completed capture\<close>









subsection \<open>The analyzer\<close>

lemma design_rejects:
  "fs \<le> 0 \<Longrightarrow>
     design_a_weighting_sos L fs = ([], Inl (ValueError ''Sampling frequency must be positive.''))"
  by (simp add: design_a_weighting_sos_def)

lemma design_returns:
  "0 < fs \<Longrightarrow>
     design_a_weighting_sos L fs =
       ([], Inr (case bilinear L NUM DEN fs of (b_z, a_z) \<Rightarrow> tf2sos L b_z a_z))"
  by (simp add: design_a_weighting_sos_def split: prod.splits)

lemma finite_values_nan_to_num:
  "finite_values (map nan_to_num p) = Some (map zero_if_non_finite p)"
proof (induction p)
  case Nil
  then show ?case by simp
next
  case (Cons v p)
  then show ?case by (cases v) simp_all
qed

lemma finite_values_all_finite:
  "list_all isfinite p \<Longrightarrow> finite_values p = Some (map zero_if_non_finite p)"
proof (induction p)
  case Nil
  then show ?case by simp
next
  case (Cons v p)
  then show ?case by (cases v) simp_all
qed

lemma finite_values_sanitized:
  "finite_values (if \<not> list_all isfinite p then map nan_to_num p else p)
     = Some (map zero_if_non_finite p)"
  by (simp add: finite_values_nan_to_num finite_values_all_finite)

lemma compute_la_eq_empty:
  "compute_la_eq L [] fs = ([], Inl (ValueError ''Empty signal.''))"
  by (simp add: compute_la_eq_def)

lemma compute_la_eq_bad_rate:
  "p \<noteq> [] \<Longrightarrow> fs \<le> 0 \<Longrightarrow>
     compute_la_eq L p fs = ([], Inl (ValueError ''Sampling frequency must be positive.''))"
  unfolding compute_la_eq_def Let_def
  by (simp only: finite_values_sanitized) (simp add: design_rejects)

lemma compute_la_eq_run:
  assumes "p \<noteq> []" "0 < fs"
  shows "compute_la_eq L p fs =
     ([], case sosfiltfilt L (case bilinear L NUM DEN fs of (b_z, a_z) \<Rightarrow> tf2sos L b_z a_z)
                 (map (\<lambda>v. v - mean (map zero_if_non_finite p)) (map zero_if_non_finite p)) of
            Inl e \<Rightarrow> Inl e
          | Inr x_a \<Rightarrow>
              Inr (if x_a = [] then NaN
                   else if sqrt (mean (map (\<lambda>v. v ^ 2) x_a)) \<le> 0 then NegInf
                   else Finite (20 * log 10 (sqrt (mean (map (\<lambda>v. v ^ 2) x_a)) / P0))))"
  using assms unfolding compute_la_eq_def Let_def
  by (simp only: finite_values_sanitized)
     (simp add: design_returns Let_def split: sum.splits)

lemma map_zero_if_silent:
  "\<forall>v \<in> set p. v = Finite 0 \<or> \<not> isfinite v \<Longrightarrow>
     map zero_if_non_finite p = replicate (length p) 0"
proof (induction p)
  case Nil
  then show ?case by simp
next
  case (Cons v p)
  then show ?case by (cases v) auto
qed

lemma mean_replicate_zero: "mean (replicate n 0) = 0"
  by (simp add: mean_def sum_list_replicate)

lemma centred_silence:
  "map (\<lambda>v. v - mean (replicate n 0)) (replicate n 0) = replicate n 0"
  by (simp add: mean_replicate_zero)

lemma rms_silence: "sqrt (mean (map (\<lambda>v. v ^ 2) (replicate n 0))) = 0"
  by (simp add: mean_def sum_list_replicate)

lemma compute_la_eq_silent:
  assumes "p \<noteq> []" "0 < fs" "\<forall>v \<in> set p. v = Finite 0 \<or> \<not> isfinite v"
    and flt: "sosfiltfilt L (case bilinear L NUM DEN fs of (b_z, a_z) \<Rightarrow> tf2sos L b_z a_z)
             (replicate (length p) 0) = Inr (replicate (length p) 0)"
  shows "compute_la_eq L p fs = ([], Inr NegInf)"
proof -
  from assms(3) have z: "map zero_if_non_finite p = replicate (length p) 0"
    by (simp add: map_zero_if_silent)
  from assms(1) have ne: "replicate (length p) (0::real) \<noteq> []" by simp
  from compute_la_eq_run [OF assms(1,2), of L]
  have "compute_la_eq L p fs =
     ([], case sosfiltfilt L (case bilinear L NUM DEN fs of (b_z, a_z) \<Rightarrow> tf2sos L b_z a_z)
                 (replicate (length p) 0) of
            Inl e \<Rightarrow> Inl e
          | Inr x_a \<Rightarrow>
              Inr (if x_a = [] then NaN
                   else if sqrt (mean (map (\<lambda>v. v ^ 2) x_a)) \<le> 0 then NegInf
                   else Finite (20 * log 10 (sqrt (mean (map (\<lambda>v. v ^ 2) x_a)) / P0))))"
    by (simp only: z centred_silence)
  also note flt
  finally show ?thesis
    using ne by (simp add: rms_silence mean_replicate_zero)
qed

text \<open>
  Claim C4, as stated, fails: at 8000 Hz, a positive rate below twice the highest
  corner frequency, the design returns its sections and the function reports nothing.
  The function has no check of the rate but \<open>fs <= 0\<close> and no warning of its own.
\<close>

theorem design_reports_no_warning:
  "(0::real) < 8000 \<and> 8000 < 2 * f4
   \<and> design_a_weighting_sos unit_gain_lib 8000 = ([], Inr [unit_section])"
  by (simp add: f4_def design_a_weighting_sos_def unit_gain_lib_def)

text \<open>
  Claim C4, amended. The design raises its configuration error, the \<open>ValueError\<close>
  "Sampling frequency must be positive.", if and only if the sample rate is not
  positive. For every positive rate, one below twice the highest corner frequency
  included, the function makes no further check of the rate: its result is the
  sections that \<open>tf2sos\<close> makes of what \<open>bilinear\<close> returns for the analog
  prototype. What SciPy itself raises or prints is outside the model.
\<close>

theorem design_fails_iff_rate_not_positive:
  "(snd (design_a_weighting_sos L fs) = Inl (ValueError ''Sampling frequency must be positive.'')
      \<longleftrightarrow> fs \<le> 0)
   \<and> (0 < fs \<longrightarrow>
        snd (design_a_weighting_sos L fs) =
          Inr (case bilinear L NUM DEN fs of (b_z, a_z) \<Rightarrow> tf2sos L b_z a_z))"
proof (cases "fs \<le> 0")
  case True
  then show ?thesis by (simp add: design_rejects)
next
  case False
  then have "0 < fs" by simp
  with False show ?thesis by (simp add: design_returns)
qed

theorem design_fails_iff_rate_not_positive_witness:
  "(0::real) \<le> 0
   \<and> snd (design_a_weighting_sos unit_gain_lib 0) =
       Inl (ValueError ''Sampling frequency must be positive.'')
   \<and> (0::real) < 8000 \<and> 8000 < 2 * f4
   \<and> snd (design_a_weighting_sos unit_gain_lib 8000) = Inr [unit_section]"
proof -
  from design_fails_iff_rate_not_positive [of unit_gain_lib 0]
  have a: "snd (design_a_weighting_sos unit_gain_lib 0) =
       Inl (ValueError ''Sampling frequency must be positive.'')" by simp
  from design_fails_iff_rate_not_positive [of unit_gain_lib 8000]
  have b: "snd (design_a_weighting_sos unit_gain_lib 8000) = Inr [unit_section]"
    by (simp add: unit_gain_lib_def)
  from a b show ?thesis by (simp add: f4_def)
qed

subsection \<open>The response of the designed filter\<close>

lemma padd_Nil_right: "padd p [] = p"
  by (cases p) simp_all

lemma length_padd: "length (padd p q) = max (length p) (length q)"
  by (induction p q rule: padd.induct) simp_all

lemma polyval_padd:
  "length p \<le> length q \<Longrightarrow>
     polyval (padd p q) z = polyval p z * z ^ (length q - length p) + polyval q z"
proof (induction p q rule: padd.induct)
  case (1 ys)
  then show ?case by simp
next
  case (2 v va)
  then show ?case by simp
next
  case (3 x xs y ys)
  then have le: "length xs \<le> length ys" by simp
  then have len: "length (padd xs ys) = length ys" by (simp add: length_padd)
  from le have pw: "z ^ length xs * z ^ (length ys - length xs) = z ^ length ys"
    by (simp add: power_add [symmetric])
  have "polyval (padd (x # xs) (y # ys)) z
      = of_real (x + y) * z ^ length ys + polyval (padd xs ys) z" by (simp add: len)
  also have "\<dots> = of_real (x + y) * z ^ length ys
      + (polyval xs z * z ^ (length ys - length xs) + polyval ys z)"
    using 3 le by simp
  also have "\<dots> = (of_real x * (z ^ length xs * z ^ (length ys - length xs))
      + polyval xs z * z ^ (length ys - length xs)) + (of_real y * z ^ length ys + polyval ys z)"
    by (simp add: pw algebra_simps)
  also have "\<dots> = polyval (x # xs) z * z ^ (length (y # ys) - length (x # xs)) + polyval (y # ys) z"
    by (simp add: algebra_simps)
  finally show ?case .
qed

lemma polyval_scale: "polyval (map ((*) x) b) z = of_real x * polyval b z"
  by (induction b) (simp_all add: algebra_simps)

lemma length_convolve:
  "b \<noteq> [] \<Longrightarrow> a \<noteq> [] \<Longrightarrow> length (convolve a b) = length a + length b - 1"
proof (induction a)
  case Nil
  then show ?case by simp
next
  case (Cons x xs)
  show ?case
  proof (cases "xs = []")
    case True
    with Cons.prems show ?thesis by (cases b) (simp_all add: length_padd)
  next
    case False
    with Cons have "length (convolve xs b) = length xs + length b - 1" by simp
    with Cons.prems False show ?thesis by (cases b) (simp_all add: length_padd)
  qed
qed

lemma polyval_convolve: "b \<noteq> [] \<Longrightarrow> polyval (convolve a b) z = polyval a z * polyval b z"
proof (induction a)
  case Nil
  then show ?case by simp
next
  case (Cons x xs)
  show ?case
  proof (cases "xs = []")
    case True
    from Cons.prems obtain b0 bs where b: "b = b0 # bs" by (cases b) auto
    have "convolve (x # xs) b = map ((*) x) b" by (simp add: True b padd_Nil_right)
    then show ?thesis by (simp add: polyval_scale True)
  next
    case False
    from length_convolve [OF Cons.prems False]
    have len: "length (0 # convolve xs b) = length xs + length b"
      using Cons.prems False by (cases b; cases xs) simp_all
    then have le: "length (map ((*) x) b) \<le> length (0 # convolve xs b)" by simp
    have "polyval (convolve (x # xs) b) z
        = polyval (map ((*) x) b) z * z ^ (length (0 # convolve xs b) - length (map ((*) x) b))
          + polyval (0 # convolve xs b) z"
      using polyval_padd [OF le] by simp
    also have "\<dots> = of_real x * polyval b z * z ^ length xs + polyval (convolve xs b) z"
      using len by (simp add: polyval_scale)
    also have "\<dots> = of_real x * polyval b z * z ^ length xs + polyval xs z * polyval b z"
      using Cons by simp
    also have "\<dots> = polyval (x # xs) z * polyval b z" by (simp add: algebra_simps)
    finally show ?thesis .
  qed
qed

lemma polyval_dropWhile: "polyval (dropWhile (\<lambda>x. x = 0) c) z = polyval c z"
  by (induction c) simp_all

lemma polyval_poly1d: "polyval (poly1d c) z = polyval c z"
proof (cases "dropWhile (\<lambda>x. x = 0) c = []")
  case True
  with polyval_dropWhile [of c z] have "polyval c z = 0" by simp
  with True show ?thesis by (simp add: poly1d_def)
next
  case False
  then have "poly1d c = dropWhile (\<lambda>x. x = 0) c" unfolding poly1d_def Let_def by (simp only: if_False)
  then show ?thesis by (simp only: polyval_dropWhile)
qed

lemma poly1d_not_Nil: "poly1d c \<noteq> []"
  by (simp add: poly1d_def Let_def)

lemma polyval_polymul: "polyval (polymul a b) z = polyval a z * polyval b z"
  by (simp add: polymul_def polyval_convolve poly1d_not_Nil polyval_poly1d)

lemma polyval_DEN:
  "polyval DEN s =
     (s + of_real (2 * pi * f4)) ^ 2 * ((s + of_real (2 * pi * f1)) ^ 2
       * ((s + of_real (2 * pi * f3)) * (s + of_real (2 * pi * f2))))"
proof -
  have q: "polyval [1, 4 * pi * a, (2 * pi * a) ^ 2] s = (s + of_real (2 * pi * a)) ^ 2" for a
    by (simp add: power2_eq_square algebra_simps)
  have l: "polyval [1, 2 * pi * a] s = s + of_real (2 * pi * a)" for a
    by simp
  show ?thesis unfolding DEN_def polyval_polymul q l ..
qed

lemma polyval_NUM: "polyval NUM s = of_real ((2 * pi * f4) ^ 2 * (10 powr (A1000 / 20))) * s ^ 4"
  by (simp add: NUM_def power4_eq_xxxx)

lemma cmod_imag_plus: "cmod (\<i> * of_real y + of_real a) = sqrt (y ^ 2 + a ^ 2)"
  by (simp add: cmod_def add.commute)

lemma analog_magnitude:
  "cmod (analog_response (\<i> * of_real y)) =
     (2 * pi * f4) ^ 2 * 10 powr (A1000 / 20) * \<bar>y\<bar> ^ 4
       / ((y ^ 2 + (2 * pi * f4) ^ 2) * ((y ^ 2 + (2 * pi * f1) ^ 2)
          * (sqrt (y ^ 2 + (2 * pi * f3) ^ 2) * sqrt (y ^ 2 + (2 * pi * f2) ^ 2))))"
proof -
  have k: "0 \<le> (2 * pi * f4) ^ 2 * 10 powr (A1000 / 20)" by simp
  have n: "cmod (of_real ((2 * pi * f4) ^ 2 * 10 powr (A1000 / 20)) * (\<i> * of_real y) ^ 4)
      = (2 * pi * f4) ^ 2 * 10 powr (A1000 / 20) * \<bar>y\<bar> ^ 4"
    unfolding norm_mult norm_of_real norm_power abs_of_nonneg [OF k] by (simp add: norm_mult)
  have sq: "(sqrt (y ^ 2 + a ^ 2)) ^ 2 = y ^ 2 + a ^ 2" for a :: real by simp
  have d: "cmod ((\<i> * of_real y + of_real (2 * pi * f4)) ^ 2
        * ((\<i> * of_real y + of_real (2 * pi * f1)) ^ 2
           * ((\<i> * of_real y + of_real (2 * pi * f3)) * (\<i> * of_real y + of_real (2 * pi * f2)))))
      = (y ^ 2 + (2 * pi * f4) ^ 2) * ((y ^ 2 + (2 * pi * f1) ^ 2)
          * (sqrt (y ^ 2 + (2 * pi * f3) ^ 2) * sqrt (y ^ 2 + (2 * pi * f2) ^ 2)))"
    unfolding norm_mult norm_power cmod_imag_plus sq ..
  show ?thesis unfolding analog_response_def polyval_DEN polyval_NUM norm_divide n d ..
qed

lemma sqrt_scaled: "0 \<le> c \<Longrightarrow> sqrt ((c * x) ^ 2 + (c * a) ^ 2) = c * sqrt (x ^ 2 + a ^ 2)"
proof -
  assume c: "0 \<le> c"
  have "(c * x) ^ 2 + (c * a) ^ 2 = c ^ 2 * (x ^ 2 + a ^ 2)" by (simp add: power2_eq_square algebra_simps)
  then have "sqrt ((c * x) ^ 2 + (c * a) ^ 2) = sqrt (c ^ 2) * sqrt (x ^ 2 + a ^ 2)"
    by (simp only: real_sqrt_mult)
  with c show ?thesis by simp
qed

lemma analog_magnitude_hz:
  assumes "0 < x"
  shows "cmod (analog_response (\<i> * of_real (2 * pi * x))) =
     10 powr (A1000 / 20)
       * (f4 ^ 2 * x ^ 4
          / ((x ^ 2 + f1 ^ 2) * sqrt ((x ^ 2 + f2 ^ 2) * (x ^ 2 + f3 ^ 2)) * (x ^ 2 + f4 ^ 2)))"
proof -
  define c where "c = 2 * pi"
  have c: "0 < c" by (simp add: c_def)
  have q: "(c * x) ^ 2 + (c * a) ^ 2 = c ^ 2 * (x ^ 2 + a ^ 2)" for a
    by (simp add: power2_eq_square algebra_simps)
  have s: "sqrt (c ^ 2 * (x ^ 2 + a ^ 2)) = c * sqrt (x ^ 2 + a ^ 2)" for a
    using c sqrt_scaled [of c x a] by (simp only: q)
  have ax: "\<bar>c * x\<bar> = c * x" using c assms by simp
  define k where "k = 10 powr (A1000 / 20)"
  define d1 where "d1 = x ^ 2 + f1 ^ 2"
  define d4 where "d4 = x ^ 2 + f4 ^ 2"
  define r2 where "r2 = sqrt (x ^ 2 + f2 ^ 2)"
  define r3 where "r3 = sqrt (x ^ 2 + f3 ^ 2)"
  have pos: "0 < d1" "0 < d4" "0 < r2" "0 < r3"
    using assms by (simp_all add: d1_def d4_def r2_def r3_def add_pos_nonneg)
  have "cmod (analog_response (\<i> * of_real (c * x))) =
     (c * f4) ^ 2 * k * (c * x) ^ 4
       / ((c ^ 2 * d4) * ((c ^ 2 * d1) * ((c * r3) * (c * r2))))"
    unfolding analog_magnitude c_def [symmetric] q s ax k_def d1_def d4_def r2_def r3_def ..
  also have "\<dots> = k * (f4 ^ 2 * x ^ 4 / (d1 * (r2 * r3) * d4))"
    using c pos by (simp add: field_simps power2_eq_square power4_eq_xxxx)
  also have "r2 * r3 = sqrt ((x ^ 2 + f2 ^ 2) * (x ^ 2 + f3 ^ 2))"
    by (simp add: r2_def r3_def real_sqrt_mult)
  finally show ?thesis by (simp only: c_def k_def d1_def d4_def)
qed

lemma weighting_positive:
  assumes "0 < x"
  shows "0 < f4 ^ 2 * x ^ 4
          / ((x ^ 2 + f1 ^ 2) * sqrt ((x ^ 2 + f2 ^ 2) * (x ^ 2 + f3 ^ 2)) * (x ^ 2 + f4 ^ 2))"
proof -
  have "0 < f4" by (simp add: f4_def)
  moreover have "0 < x ^ 2 + a ^ 2" for a using assms by (simp add: add_pos_nonneg)
  ultimately show ?thesis using assms by (simp add: mult_pos_pos)
qed

lemma reference_is_prototype:
  assumes "0 < x"
  shows "a_weighting_db x = 20 * log 10 (cmod (analog_response (\<i> * of_real (2 * pi * x))))"
proof -
  define R where "R = f4 ^ 2 * x ^ 4
          / ((x ^ 2 + f1 ^ 2) * sqrt ((x ^ 2 + f2 ^ 2) * (x ^ 2 + f3 ^ 2)) * (x ^ 2 + f4 ^ 2))"
  have R: "0 < R" unfolding R_def by (rule weighting_positive [OF assms])
  have k: "0 < (10::real) powr (A1000 / 20)" by simp
  have "log 10 (10 powr (A1000 / 20) * R) = log 10 (10 powr (A1000 / 20)) + log 10 R"
    using k R by (simp add: log_mult)
  also have "log 10 (10 powr (A1000 / 20)) = A1000 / 20" by simp
  finally have "20 * log 10 (10 powr (A1000 / 20) * R) = 20 * log 10 R + A1000" by simp
  then show ?thesis unfolding analog_magnitude_hz [OF assms] a_weighting_db_def R_def by simp
qed

lemma bilinear_on_circle:
  assumes "cos (\<phi> / 2) \<noteq> 0"
  shows "of_real (2 * fs) * (cis \<phi> - 1) / (cis \<phi> + 1) = \<i> * of_real (2 * fs * tan (\<phi> / 2))"
proof -
  define c where "c = cos (\<phi> / 2)"
  define sn where "sn = sin (\<phi> / 2)"
  have one: "c ^ 2 + sn ^ 2 = 1" by (simp add: c_def sn_def)
  have "cos \<phi> = cos (2 * (\<phi> / 2))" "sin \<phi> = sin (2 * (\<phi> / 2))" by simp_all
  then have dbl: "cos \<phi> = c ^ 2 - sn ^ 2" "sin \<phi> = 2 * sn * c"
    unfolding cos_double sin_double by (simp_all add: c_def sn_def)
  have c0: "c \<noteq> 0" using assms by (simp add: c_def)
  have t: "tan (\<phi> / 2) = sn / c" by (simp add: tan_def c_def sn_def)
  have re: "cos \<phi> + 1 = 2 * c ^ 2" using one dbl(1) by simp
  have re': "cos \<phi> - 1 = - (2 * sn ^ 2)" using one dbl(1) by simp
  have nz: "cis \<phi> + 1 \<noteq> 0"
  proof
    assume "cis \<phi> + 1 = 0"
    then have "Re (cis \<phi> + 1) = 0" by simp
    then have "cos \<phi> + 1 = 0" by simp
    with re c0 show False by simp
  qed
  have key: "cis \<phi> - 1 = \<i> * of_real (tan (\<phi> / 2)) * (cis \<phi> + 1)"
  proof (rule complex_eqI)
    have "Re (\<i> * of_real (tan (\<phi> / 2)) * (cis \<phi> + 1)) = - (sn / c * sin \<phi>)" by (simp add: t)
    also have "\<dots> = - (2 * sn ^ 2)" using c0 by (simp add: dbl(2) power2_eq_square)
    finally show "Re (cis \<phi> - 1) = Re (\<i> * of_real (tan (\<phi> / 2)) * (cis \<phi> + 1))"
      using re' by simp
    have "Im (\<i> * of_real (tan (\<phi> / 2)) * (cis \<phi> + 1)) = sn / c * (cos \<phi> + 1)" by (simp add: t)
    also have "\<dots> = 2 * sn * c" using c0 by (simp add: re power2_eq_square)
    finally show "Im (cis \<phi> - 1) = Im (\<i> * of_real (tan (\<phi> / 2)) * (cis \<phi> + 1))"
      using dbl(2) by simp
  qed
  have "of_real (2 * fs) * (cis \<phi> - 1) / (cis \<phi> + 1)
      = (of_real (2 * fs) * (\<i> * of_real (tan (\<phi> / 2)))) * (cis \<phi> + 1) / (cis \<phi> + 1)"
    by (simp only: key mult.assoc)
  also have "\<dots> = of_real (2 * fs) * (\<i> * of_real (tan (\<phi> / 2)))"
    by (rule nonzero_mult_div_cancel_right [OF nz])
  also have "\<dots> = \<i> * of_real (2 * fs * tan (\<phi> / 2))" by simp
  finally show ?thesis .
qed

lemma gain_warped:
  assumes "0 < fs" "0 < f" "2 * f < fs"
  shows "gain_db fs f = a_weighting_db (fs * tan (pi * f / fs) / pi)"
proof -
  define \<theta> where "\<theta> = pi * f / fs"
  have pos: "0 < \<theta>" using assms by (simp add: \<theta>_def)
  have "\<theta> * 2 < pi"
  proof -
    have "pi * (2 * f) < pi * fs" using assms(3) by simp
    then show ?thesis using assms(1) by (simp add: \<theta>_def field_simps)
  qed
  then have lt: "\<theta> < pi / 2" by simp
  from pos lt have cpos: "0 < cos \<theta>" by (intro cos_gt_zero_pi) simp_all
  from pos lt have tpos: "0 < tan \<theta>" by (rule tan_gt_zero)
  have half: "2 * pi * f / fs / 2 = \<theta>" by (simp add: \<theta>_def)
  have c0: "cos (2 * pi * f / fs / 2) \<noteq> 0" unfolding half using cpos by simp
  define X where "X = fs * tan \<theta> / pi"
  have X: "0 < X" using assms(1) tpos by (simp add: X_def)
  have w: "2 * fs * tan \<theta> = 2 * pi * X" by (simp add: X_def)
  have d: "digital_response fs f = analog_response (\<i> * of_real (2 * pi * X))"
    unfolding digital_response_def Let_def bilinear_on_circle [OF c0] half w ..
  have "gain_db fs f = 20 * log 10 (cmod (analog_response (\<i> * of_real (2 * pi * X))))"
    unfolding gain_db_def d ..
  also have "\<dots> = a_weighting_db X" by (rule reference_is_prototype [OF X, symmetric])
  finally show ?thesis unfolding X_def \<theta>_def .
qed

lemma warped_frequency: "11084 \<le> 25600 * tan (pi * 10000 / 25600) / pi"
proof -
  define \<theta> where "\<theta> = pi * 10000 / 25600"
  have lo: "pi / 3 < \<theta>" by (simp add: \<theta>_def)
  have hi: "\<theta> < pi / 2" by (simp add: \<theta>_def)
  have "- (pi / 2) < pi / 3" by (smt (verit) pi_gt_zero divide_pos_pos)
  from tan_monotone [OF this lo hi] have "sqrt 3 < tan \<theta>" by (simp add: tan_60)
  moreover have "1732 / 1000 \<le> sqrt 3" by (rule real_le_rsqrt) (simp add: power2_eq_square)
  ultimately have t: "1732 / 1000 < tan \<theta>" by linarith
  have "11084 * pi \<le> 11084 * 4" using pi_less_4 by simp
  also have "\<dots> \<le> 25600 * (1732 / 1000 :: real)" by simp
  also have "\<dots> \<le> 25600 * tan \<theta>" using t by simp
  finally have "11084 * pi \<le> 25600 * tan \<theta>" .
  then have "11084 \<le> 25600 * tan \<theta> / pi" by (simp add: pos_le_divide_eq)
  then show ?thesis by (simp only: \<theta>_def)
qed

lemma weighting_upper:
  assumes "0 < x"
  shows "f4 ^ 2 * x ^ 4
          / ((x ^ 2 + f1 ^ 2) * sqrt ((x ^ 2 + f2 ^ 2) * (x ^ 2 + f3 ^ 2)) * (x ^ 2 + f4 ^ 2))
         \<le> f4 ^ 2 / (x ^ 2 + f4 ^ 2)"
proof -
  have x2: "0 < x ^ 2" using assms by simp
  have d4: "0 < x ^ 2 + f4 ^ 2" using x2 by (simp add: add_pos_nonneg)
  have a: "x ^ 2 \<le> x ^ 2 + f1 ^ 2" by simp
  have "x ^ 2 * x ^ 2 \<le> (x ^ 2 + f2 ^ 2) * (x ^ 2 + f3 ^ 2)"
    by (intro mult_mono) simp_all
  then have "(x ^ 2) ^ 2 \<le> (x ^ 2 + f2 ^ 2) * (x ^ 2 + f3 ^ 2)"
    by (simp only: power2_eq_square [of "x ^ 2"])
  then have b: "x ^ 2 \<le> sqrt ((x ^ 2 + f2 ^ 2) * (x ^ 2 + f3 ^ 2))" by (rule real_le_rsqrt)
  have "x ^ 2 * x ^ 2 \<le> (x ^ 2 + f1 ^ 2) * sqrt ((x ^ 2 + f2 ^ 2) * (x ^ 2 + f3 ^ 2))"
    using a b by (intro mult_mono) simp_all
  then have n: "x ^ 4 \<le> (x ^ 2 + f1 ^ 2) * sqrt ((x ^ 2 + f2 ^ 2) * (x ^ 2 + f3 ^ 2))"
    by (simp add: power2_eq_square power4_eq_xxxx mult.assoc)
  define D where "D = (x ^ 2 + f1 ^ 2) * sqrt ((x ^ 2 + f2 ^ 2) * (x ^ 2 + f3 ^ 2))"
  have D: "0 < D" using n assms unfolding D_def by (smt (verit) zero_less_power)
  have "f4 ^ 2 * x ^ 4 / (D * (x ^ 2 + f4 ^ 2)) = (f4 ^ 2 / (x ^ 2 + f4 ^ 2)) * (x ^ 4 / D)"
    by simp
  also have "\<dots> \<le> (f4 ^ 2 / (x ^ 2 + f4 ^ 2)) * 1"
    using n D d4 unfolding D_def [symmetric] by (intro mult_left_mono) simp_all
  finally show ?thesis unfolding D_def by simp
qed

lemma weighting_lower:
  assumes "0 < x"
  shows "f4 ^ 2 * x ^ 4 / ((x ^ 2 + f1 ^ 2) * (x ^ 2 + f3 ^ 2) * (x ^ 2 + f4 ^ 2))
         \<le> f4 ^ 2 * x ^ 4
          / ((x ^ 2 + f1 ^ 2) * sqrt ((x ^ 2 + f2 ^ 2) * (x ^ 2 + f3 ^ 2)) * (x ^ 2 + f4 ^ 2))"
proof -
  have pos: "0 < x ^ 2 + a ^ 2" for a using assms by (simp add: add_pos_nonneg)
  have "f2 \<le> f3" by (simp add: f2_def f3_def)
  moreover have "0 \<le> f2" by (simp add: f2_def)
  ultimately have "f2 ^ 2 \<le> f3 ^ 2" by (intro power_mono) simp_all
  then have "(x ^ 2 + f2 ^ 2) * (x ^ 2 + f3 ^ 2) \<le> (x ^ 2 + f3 ^ 2) * (x ^ 2 + f3 ^ 2)"
    using pos [of f3] by (intro mult_right_mono) simp_all
  then have "sqrt ((x ^ 2 + f2 ^ 2) * (x ^ 2 + f3 ^ 2)) \<le> sqrt ((x ^ 2 + f3 ^ 2) * (x ^ 2 + f3 ^ 2))"
    by (simp only: real_sqrt_le_iff)
  also have "\<dots> = x ^ 2 + f3 ^ 2" using pos [of f3] by simp
  finally have s: "sqrt ((x ^ 2 + f2 ^ 2) * (x ^ 2 + f3 ^ 2)) \<le> x ^ 2 + f3 ^ 2" .
  have spos: "0 < sqrt ((x ^ 2 + f2 ^ 2) * (x ^ 2 + f3 ^ 2))"
    using pos [of f2] pos [of f3] by (simp add: mult_pos_pos)
  have le: "(x ^ 2 + f1 ^ 2) * sqrt ((x ^ 2 + f2 ^ 2) * (x ^ 2 + f3 ^ 2)) * (x ^ 2 + f4 ^ 2)
      \<le> (x ^ 2 + f1 ^ 2) * (x ^ 2 + f3 ^ 2) * (x ^ 2 + f4 ^ 2)"
    using s pos [of f1] pos [of f4] by (simp add: mult_left_mono mult_right_mono)
  have dpos: "0 < (x ^ 2 + f1 ^ 2) * sqrt ((x ^ 2 + f2 ^ 2) * (x ^ 2 + f3 ^ 2)) * (x ^ 2 + f4 ^ 2)"
    using spos pos [of f1] pos [of f4] by (simp add: mult_pos_pos)
  have "0 \<le> f4 ^ 2 * x ^ 4" by simp
  from divide_left_mono [OF le this] dpos pos [of f1] pos [of f3] pos [of f4]
  show ?thesis by (simp add: mult_pos_pos)
qed

lemma margin: "(93 / 100 :: real) < 10 powr (- (1 / 40))"
proof -
  have "(10 powr (- (1 / 40))) ^ 40 = (10::real) powr (- 1)"
    by (simp add: powr_realpow [symmetric] powr_powr)
  also have "\<dots> = 1 / 10" by (simp add: powr_minus)
  finally have p: "(10 powr (- (1 / 40))) ^ 40 = (1 / 10 :: real)" .
  have "(93 / 100 :: real) ^ 40 < 1 / 10" by (simp add: power_divide)
  with p have "(93 / 100 :: real) ^ 40 < (10 powr (- (1 / 40))) ^ 40" by simp
  then show ?thesis by (rule power_less_imp_less_base) simp
qed

lemma numeric_gap:
  "f4 ^ 2 / (11084 ^ 2 + f4 ^ 2)
     \<le> 93 / 100 * (f4 ^ 2 * 10000 ^ 4
                   / ((10000 ^ 2 + f1 ^ 2) * (10000 ^ 2 + f3 ^ 2) * (10000 ^ 2 + f4 ^ 2)))"
  by (simp add: f1_def f3_def f4_def power_divide)

lemma designed_filter_response:
  assumes "as_documented L fs" "0 < fs"
  shows "\<exists>sos. snd (design_a_weighting_sos L fs) = Inr sos
           \<and> sos_response sos (cis (2 * pi * f / fs)) = digital_response fs f"
proof -
  from assms(2) have "snd (design_a_weighting_sos L fs)
      = Inr (case bilinear L NUM DEN fs of (b_z, a_z) \<Rightarrow> tf2sos L b_z a_z)"
    by (simp add: design_a_weighting_sos_def split: prod.splits)
  moreover from assms(1)
  have "sos_response (case bilinear L NUM DEN fs of (b_z, a_z) \<Rightarrow> tf2sos L b_z a_z)
          (cis (2 * pi * f / fs)) = digital_response fs f"
    unfolding as_documented_def digital_response_def Let_def by blast
  ultimately show ?thesis by blast
qed

text \<open>
  Claim C3. The code breaks it. At 25600 Hz, the rate of the recorder, the gain of the
  designed filter at 10 kHz is more than 0.5 dB below the reference curve, where the
  claim allows 0.3 dB: the bilinear transform maps 10 kHz to the analog frequency
  \<open>fs / pi * tan (pi * f / fs)\<close>, about 22.8 kHz, where the prototype is 8.55 dB
  below its value at 10 kHz, and the design does not pre-warp.
\<close>

theorem designed_filter_off_reference:
  "gain_db 25600 10000 < a_weighting_db 10000 - 1 / 2"
proof -
  define X where "X = 25600 * tan (pi * 10000 / 25600) / pi"
  have X: "11084 \<le> X" unfolding X_def by (rule warped_frequency)
  then have Xpos: "0 < X" by simp
  define R where "R = (\<lambda>x. f4 ^ 2 * x ^ 4
          / ((x ^ 2 + f1 ^ 2) * sqrt ((x ^ 2 + f2 ^ 2) * (x ^ 2 + f3 ^ 2)) * (x ^ 2 + f4 ^ 2)))"
  have g: "gain_db 25600 10000 = 20 * log 10 (R X) + A1000"
    using gain_warped [of 25600 10000] by (simp add: X_def a_weighting_db_def R_def)
  have r: "a_weighting_db 10000 = 20 * log 10 (R 10000) + A1000"
    by (simp add: a_weighting_db_def R_def)
  have RX: "0 < R X" unfolding R_def by (rule weighting_positive [OF Xpos])
  have R0: "0 < R 10000" unfolding R_def by (rule weighting_positive) simp
  have "11084 ^ 2 \<le> X ^ 2" using X by (intro power_mono) simp_all
  moreover have "0 < X ^ 2 + f4 ^ 2" "0 < 11084 ^ 2 + f4 ^ 2"
    using Xpos by (simp_all add: add_pos_nonneg)
  ultimately have "f4 ^ 2 / (X ^ 2 + f4 ^ 2) \<le> f4 ^ 2 / (11084 ^ 2 + f4 ^ 2)"
    by (intro divide_left_mono mult_pos_pos) simp_all
  with weighting_upper [OF Xpos] have "R X \<le> f4 ^ 2 / (11084 ^ 2 + f4 ^ 2)"
    unfolding R_def by linarith
  also note numeric_gap
  also have "93 / 100 * (f4 ^ 2 * 10000 ^ 4
                   / ((10000 ^ 2 + f1 ^ 2) * (10000 ^ 2 + f3 ^ 2) * (10000 ^ 2 + f4 ^ 2)))
      \<le> 93 / 100 * R 10000"
    unfolding R_def using weighting_lower [of 10000] by simp
  finally have le: "R X \<le> 93 / 100 * R 10000" .
  have "log 10 (R X) \<le> log 10 (93 / 100 * R 10000)" using le RX by simp
  also have "\<dots> = log 10 (93 / 100) + log 10 (R 10000)"
    using log_mult [of 10 "93 / 100" "R 10000"] R0 by (simp del: times_divide_eq_left)
  also have "log 10 (93 / 100) < - (1 / 40)" using margin by (simp add: log_less_iff)
  finally have "log 10 (R X) < - (1 / 40) + log 10 (R 10000)" by simp
  then show ?thesis unfolding g r by simp
qed

text \<open>
  Claim C1, as stated, fails: on an empty array \<open>compute_la_eq\<close> raises
  \<open>ValueError\<close>; it does not return the sentinel.
\<close>

theorem compute_la_eq_raises_on_empty:
  "compute_la_eq unit_gain_lib [] 48000 = ([], Inl (ValueError ''Empty signal.''))"
  by (rule compute_la_eq_empty)

text \<open>
  Claim C1, amended. \<open>compute_la_eq\<close> raises \<open>ValueError\<close> on an empty array,
  and on a non-empty array when the sample rate is not positive. On a non-empty array
  with a positive rate it raises only what the zero-phase filter raises, and a
  non-finite element never raises: it is replaced by zero. When every element is zero
  or non-finite and the filter returns silence for silence, the result is the sentinel,
  negative infinity.
\<close>

theorem compute_la_eq_failures_and_silence:
  "compute_la_eq L [] fs = ([], Inl (ValueError ''Empty signal.''))
   \<and> (p \<noteq> [] \<and> fs \<le> 0 \<longrightarrow>
        compute_la_eq L p fs = ([], Inl (ValueError ''Sampling frequency must be positive.'')))
   \<and> (p \<noteq> [] \<and> 0 < fs \<longrightarrow>
        (\<forall>e. snd (compute_la_eq L p fs) = Inl e \<longrightarrow>
           sosfiltfilt L (case bilinear L NUM DEN fs of (b_z, a_z) \<Rightarrow> tf2sos L b_z a_z)
             (map (\<lambda>v. v - mean (map zero_if_non_finite p)) (map zero_if_non_finite p)) = Inl e))
   \<and> (p \<noteq> [] \<and> 0 < fs \<and> (\<forall>v \<in> set p. v = Finite 0 \<or> \<not> isfinite v)
        \<and> sosfiltfilt L (case bilinear L NUM DEN fs of (b_z, a_z) \<Rightarrow> tf2sos L b_z a_z)
             (replicate (length p) 0) = Inr (replicate (length p) 0) \<longrightarrow>
        compute_la_eq L p fs = ([], Inr NegInf))"
proof -
  have c2: "p \<noteq> [] \<and> fs \<le> 0 \<longrightarrow>
        compute_la_eq L p fs = ([], Inl (ValueError ''Sampling frequency must be positive.''))"
    using compute_la_eq_bad_rate by blast
  have c3: "p \<noteq> [] \<and> 0 < fs \<longrightarrow>
        (\<forall>e. snd (compute_la_eq L p fs) = Inl e \<longrightarrow>
           sosfiltfilt L (case bilinear L NUM DEN fs of (b_z, a_z) \<Rightarrow> tf2sos L b_z a_z)
             (map (\<lambda>v. v - mean (map zero_if_non_finite p)) (map zero_if_non_finite p)) = Inl e)"
  proof (intro impI allI)
    fix e
    assume h: "p \<noteq> [] \<and> 0 < fs" and e: "snd (compute_la_eq L p fs) = Inl e"
    from h have run: "compute_la_eq L p fs =
     ([], case sosfiltfilt L (case bilinear L NUM DEN fs of (b_z, a_z) \<Rightarrow> tf2sos L b_z a_z)
                 (map (\<lambda>v. v - mean (map zero_if_non_finite p)) (map zero_if_non_finite p)) of
            Inl e \<Rightarrow> Inl e
          | Inr x_a \<Rightarrow>
              Inr (if x_a = [] then NaN
                   else if sqrt (mean (map (\<lambda>v. v ^ 2) x_a)) \<le> 0 then NegInf
                   else Finite (20 * log 10 (sqrt (mean (map (\<lambda>v. v ^ 2) x_a)) / P0))))"
      by (simp add: compute_la_eq_run)
    from e show "sosfiltfilt L (case bilinear L NUM DEN fs of (b_z, a_z) \<Rightarrow> tf2sos L b_z a_z)
             (map (\<lambda>v. v - mean (map zero_if_non_finite p)) (map zero_if_non_finite p)) = Inl e"
      unfolding run by (simp split: sum.splits)
  qed
  have c4: "p \<noteq> [] \<and> 0 < fs \<and> (\<forall>v \<in> set p. v = Finite 0 \<or> \<not> isfinite v)
        \<and> sosfiltfilt L (case bilinear L NUM DEN fs of (b_z, a_z) \<Rightarrow> tf2sos L b_z a_z)
             (replicate (length p) 0) = Inr (replicate (length p) 0) \<longrightarrow>
        compute_la_eq L p fs = ([], Inr NegInf)"
    using compute_la_eq_silent [of p fs L] by blast
  from compute_la_eq_empty c2 c3 c4 show ?thesis by blast
qed

lemma unit_gain_sections:
  "(case bilinear unit_gain_lib NUM DEN fs of (b_z, a_z) \<Rightarrow> tf2sos unit_gain_lib b_z a_z)
     = [unit_section]"
  by (simp add: unit_gain_lib_def)

lemma unit_gain_filter:
  "sosfiltfilt unit_gain_lib sos x =
     (if length x \<le> 6
      then Inl (ValueError ''The length of the input vector x must be greater than padlen.'')
      else Inr x)"
  by (simp add: unit_gain_lib_def)

theorem compute_la_eq_failures_and_silence_witness:
  "compute_la_eq unit_gain_lib [] 48000 = ([], Inl (ValueError ''Empty signal.''))
   \<and> [Finite 1] \<noteq> [] \<and> (0::real) \<le> 0
   \<and> compute_la_eq unit_gain_lib [Finite 1] 0 =
       ([], Inl (ValueError ''Sampling frequency must be positive.''))
   \<and> (0::real) < 48000
   \<and> snd (compute_la_eq unit_gain_lib [Finite 1] 48000) =
       Inl (ValueError ''The length of the input vector x must be greater than padlen.'')
   \<and> sosfiltfilt unit_gain_lib [unit_section] [0] =
       Inl (ValueError ''The length of the input vector x must be greater than padlen.'')
   \<and> list_all (\<lambda>v. v = Finite 0 \<or> \<not> isfinite v) (NaN # PosInf # replicate 5 (Finite 0))
   \<and> sosfiltfilt unit_gain_lib [unit_section] (replicate 7 0) = Inr (replicate 7 0)
   \<and> compute_la_eq unit_gain_lib (NaN # PosInf # replicate 5 (Finite 0)) 48000
       = ([], Inr NegInf)"
proof -
  let ?e = "ValueError ''The length of the input vector x must be greater than padlen.''"
  let ?p = "NaN # PosInf # replicate 5 (Finite 0)"
  have short: "snd (compute_la_eq unit_gain_lib [Finite 1] 48000) = Inl ?e"
    by (simp add: compute_la_eq_run unit_gain_sections unit_gain_filter)
  have f0: "sosfiltfilt unit_gain_lib [unit_section] [0] = Inl ?e"
    by (simp add: unit_gain_filter)
  have sil: "\<forall>v \<in> set ?p. v = Finite 0 \<or> \<not> isfinite v" by simp
  have f7: "sosfiltfilt unit_gain_lib [unit_section] (replicate 7 0) = Inr (replicate 7 0)"
    by (simp add: unit_gain_filter)
  note t1 = compute_la_eq_failures_and_silence [of unit_gain_lib 0 "[Finite 1]"]
  note t2 = compute_la_eq_failures_and_silence [of unit_gain_lib 48000 ?p]
  note t3 = compute_la_eq_failures_and_silence [of unit_gain_lib 48000 "[Finite 1]"]
  from t1 have a: "compute_la_eq unit_gain_lib [] 0 = ([], Inl (ValueError ''Empty signal.''))"
    and b: "compute_la_eq unit_gain_lib [Finite 1] 0 =
       ([], Inl (ValueError ''Sampling frequency must be positive.''))"
    by simp_all
  from t2 have a': "compute_la_eq unit_gain_lib [] 48000 = ([], Inl (ValueError ''Empty signal.''))"
    by (rule conjunct1)
  have "length ?p = 7" by simp
  with t2 sil f7 have c: "compute_la_eq unit_gain_lib ?p 48000 = ([], Inr NegInf)"
    by (simp add: unit_gain_sections)
  from t3 short have "sosfiltfilt unit_gain_lib [unit_section] [0] = Inl ?e"
    by (simp add: unit_gain_sections mean_def)
  with a' b short sil f7 c show ?thesis by (simp add: list_all_iff)
qed

lemma rms_eq: "rms xs = sqrt (mean (map (\<lambda>v. v ^ 2) xs))"
  by (simp add: rms_def mean_def)

lemma rms_nonneg: "0 \<le> sqrt (mean (map (\<lambda>v. v ^ 2) xs))"
proof -
  have "0 \<le> sum_list (map (\<lambda>v. v ^ 2) xs)" by (rule sum_list_nonneg) auto
  then show ?thesis by (simp add: mean_def)
qed

lemma level_eq:
  assumes "y \<noteq> []"
  shows "(if y = [] then NaN
          else if sqrt (mean (map (\<lambda>v. v ^ 2) y)) \<le> 0 then NegInf
          else Finite (20 * log 10 (sqrt (mean (map (\<lambda>v. v ^ 2) y)) / P0)))
       = (if rms y = 0 then NegInf else Finite (20 * log 10 (rms y / P0)))"
proof -
  define r where "r = sqrt (mean (map (\<lambda>v. v ^ 2) y))"
  have r: "rms y = r" unfolding r_def by (rule rms_eq)
  have "0 \<le> r" unfolding r_def by (rule rms_nonneg)
  then have "r \<le> 0 \<longleftrightarrow> r = 0" by linarith
  with assms show ?thesis unfolding r r_def [symmetric] by simp
qed

lemma computeLevel_spec_run:
  assumes "0 < fs"
  shows "computeLevel_spec L p fs =
     ([Replaced_non_finite (count_non_finite p)],
      case sosfiltfilt L (case bilinear L NUM DEN fs of (b_z, a_z) \<Rightarrow> tf2sos L b_z a_z)
             (map (\<lambda>v. v - mean (map zero_if_non_finite p)) (map zero_if_non_finite p)) of
        Inl e \<Rightarrow> Inl e
      | Inr filtered \<Rightarrow>
          Inr (if rms filtered = 0 then NegInf else Finite (20 * log 10 (rms filtered / P0))))"
  using assms unfolding computeLevel_spec_def Let_def
  by (simp add: design_returns split: sum.splits)

lemma rms_replicate_zero: "rms (replicate n 0) = 0"
  by (simp only: rms_eq rms_silence)

lemma computeLevel_spec_silent:
  assumes "0 < fs" "\<forall>v \<in> set p. v = Finite 0 \<or> \<not> isfinite v"
    and flt: "sosfiltfilt L (case bilinear L NUM DEN fs of (b_z, a_z) \<Rightarrow> tf2sos L b_z a_z)
             (replicate (length p) 0) = Inr (replicate (length p) 0)"
  shows "computeLevel_spec L p fs = ([Replaced_non_finite (count_non_finite p)], Inr NegInf)"
proof -
  from assms(2) have z: "map zero_if_non_finite p = replicate (length p) 0"
    by (simp add: map_zero_if_silent)
  from computeLevel_spec_run [OF assms(1), of L p]
  have "computeLevel_spec L p fs =
     ([Replaced_non_finite (count_non_finite p)],
      case sosfiltfilt L (case bilinear L NUM DEN fs of (b_z, a_z) \<Rightarrow> tf2sos L b_z a_z)
             (replicate (length p) 0) of
        Inl e \<Rightarrow> Inl e
      | Inr filtered \<Rightarrow>
          Inr (if rms filtered = 0 then NegInf else Finite (20 * log 10 (rms filtered / P0))))"
    by (simp only: z centred_silence)
  also note flt
  finally show ?thesis by (simp add: rms_replicate_zero)
qed

text \<open>
  Claim C2, as stated, fails: the reference pipeline counts and reports the replaced
  values, the code neither counts nor reports them. On an array of one NaN and six
  zeros both return the sentinel; the pipeline reports one replacement, the code nothing.
\<close>

theorem compute_la_eq_reports_no_count:
  "compute_la_eq unit_gain_lib (NaN # replicate 6 (Finite 0)) 48000 = ([], Inr NegInf)
   \<and> computeLevel_spec unit_gain_lib (NaN # replicate 6 (Finite 0)) 48000
       = ([Replaced_non_finite 1], Inr NegInf)"
proof -
  let ?p = "NaN # replicate 6 (Finite 0)"
  have len: "length ?p = 7" by simp
  have sil: "\<forall>v \<in> set ?p. v = Finite 0 \<or> \<not> isfinite v" by simp
  have flt: "sosfiltfilt unit_gain_lib
       (case bilinear unit_gain_lib NUM DEN 48000 of (b_z, a_z) \<Rightarrow> tf2sos unit_gain_lib b_z a_z)
       (replicate (length ?p) 0) = Inr (replicate (length ?p) 0)"
    by (simp only: len unit_gain_filter) simp
  have k: "count_non_finite ?p = 1" by (simp add: count_non_finite_def)
  have a: "compute_la_eq unit_gain_lib ?p 48000 = ([], Inr NegInf)"
    by (rule compute_la_eq_silent [OF _ _ sil flt]) simp_all
  have b: "computeLevel_spec unit_gain_lib ?p 48000 = ([Replaced_non_finite 1], Inr NegInf)"
    using computeLevel_spec_silent [OF _ sil flt] k by simp
  from a b show ?thesis by (rule conjI)
qed

text \<open>
  Claim C2, amended. For every non-empty array and positive sample rate, with a
  filter that returns as many samples as it is given, \<open>compute_la_eq\<close> returns
  what the reference pipeline returns: non-finite values replaced by zero, the
  arithmetic mean subtracted, the designed sections applied by the zero-phase filter,
  the root mean square taken, and the sentinel for a zero root mean square, else
  \<open>20 * log10 (rms / P0)\<close> with \<open>P0 = 20e-6\<close>. It raises what the filter
  raises. It reports nothing: the replaced values are neither counted nor reported.
\<close>

theorem compute_la_eq_refines_pipeline:
  "p \<noteq> [] \<and> 0 < fs \<and> (\<forall>sos x y. sosfiltfilt L sos x = Inr y \<longrightarrow> length y = length x) \<longrightarrow>
     snd (compute_la_eq L p fs) = snd (computeLevel_spec L p fs)
     \<and> fst (compute_la_eq L p fs) = []
     \<and> P0 = 20 / 10 ^ 6"
proof
  assume h: "p \<noteq> [] \<and> 0 < fs \<and> (\<forall>sos x y. sosfiltfilt L sos x = Inr y \<longrightarrow> length y = length x)"
  let ?sos = "case bilinear L NUM DEN fs of (b_z, a_z) \<Rightarrow> tf2sos L b_z a_z"
  let ?x = "map (\<lambda>v. v - mean (map zero_if_non_finite p)) (map zero_if_non_finite p)"
  from h have p: "p \<noteq> []" and fs: "0 < fs" by simp_all
  have xne: "?x \<noteq> []" using p by simp
  have len: "\<And>y. sosfiltfilt L ?sos ?x = Inr y \<Longrightarrow> y \<noteq> []"
  proof -
    fix y assume "sosfiltfilt L ?sos ?x = Inr y"
    with h have "length y = length ?x" by blast
    with xne show "y \<noteq> []" by auto
  qed
  have res: "snd (compute_la_eq L p fs) = snd (computeLevel_spec L p fs)"
  proof (cases "sosfiltfilt L ?sos ?x")
    case (Inl e)
    then show ?thesis
      by (simp add: compute_la_eq_run [OF p fs] computeLevel_spec_run [OF fs])
  next
    case (Inr y)
    note ne = len [OF Inr]
    show ?thesis
      by (simp only: compute_la_eq_run [OF p fs] computeLevel_spec_run [OF fs] Inr
          snd_conv sum.case level_eq [OF ne])
  qed
  have rep: "fst (compute_la_eq L p fs) = []"
    by (simp add: compute_la_eq_run [OF p fs])
  from res rep show "snd (compute_la_eq L p fs) = snd (computeLevel_spec L p fs)
     \<and> fst (compute_la_eq L p fs) = [] \<and> P0 = 20 / 10 ^ 6"
    by (simp add: P0_def)
qed

lemma unit_gain_keeps_length:
  "\<forall>sos x y. sosfiltfilt unit_gain_lib sos x = Inr y \<longrightarrow> length y = length x"
  by (simp add: unit_gain_filter)

theorem compute_la_eq_refines_pipeline_witness:
  "NaN # replicate 6 (Finite 0) \<noteq> [] \<and> (0::real) < 48000
   \<and> snd (compute_la_eq unit_gain_lib (NaN # replicate 6 (Finite 0)) 48000)
       = snd (computeLevel_spec unit_gain_lib (NaN # replicate 6 (Finite 0)) 48000)
   \<and> fst (compute_la_eq unit_gain_lib (NaN # replicate 6 (Finite 0)) 48000) = []"
  using compute_la_eq_refines_pipeline [of "NaN # replicate 6 (Finite 0)" 48000 unit_gain_lib]
    unit_gain_keeps_length
  by simp

subsection \<open>The analyzer on the store\<close>

lemma store_shape:
  "\<exists>ex. compute_la_eq_store L h r fs = (h @ ex, compute_la_eq L (array_at h r) fs)"
proof (cases "array_at h r = []")
  case True
  then show ?thesis by (simp add: compute_la_eq_store_def compute_la_eq_def)
next
  case ne: False
  let ?p = "array_at h r"
  let ?z = "map zero_if_non_finite ?p"
  let ?x = "map (\<lambda>v. v - mean ?z) ?z"
  define h1 where "h1 = (if \<not> list_all isfinite ?p then h @ [map nan_to_num ?p] else h)"
  define r1 where "r1 = (if \<not> list_all isfinite ?p then length h else r)"
  have san: "(if \<not> list_all isfinite ?p then np_nan_to_num h r True else (h, r)) = (h1, r1)"
    by (simp add: h1_def r1_def np_nan_to_num_def alloc_def)
  have at1: "array_at h1 r1 = (if \<not> list_all isfinite ?p then map nan_to_num ?p else ?p)"
    by (simp add: h1_def r1_def array_at_def)
  have fv: "finite_values (array_at h1 r1) = Some ?z"
    by (simp only: at1 finite_values_sanitized)
  have "\<exists>ex1. h1 = h @ ex1" by (cases "list_all isfinite ?p") (simp_all add: h1_def)
  then obtain ex1 where ex1: "h1 = h @ ex1" by blast
  show ?thesis
  proof (cases "fs \<le> 0")
    case True
    from ne True have c: "compute_la_eq L ?p fs =
        ([], Inl (ValueError ''Sampling frequency must be positive.''))"
      by (rule compute_la_eq_bad_rate)
    from ne True show ?thesis
      unfolding compute_la_eq_store_def c
      by (simp add: san fv design_rejects alloc_def) (simp add: ex1)
  next
    case False
    then have fs: "0 < fs" by simp
    note c = compute_la_eq_run [OF ne fs, of L]
    show ?thesis
    proof (cases "sosfiltfilt L (case bilinear L NUM DEN fs of (b_z, a_z) \<Rightarrow> tf2sos L b_z a_z) ?x")
      case (Inl e)
      with ne fs show ?thesis
        unfolding compute_la_eq_store_def c
        by (simp add: san fv design_returns alloc_def) (simp add: ex1)
    next
      case (Inr y)
      with ne fs show ?thesis
        unfolding compute_la_eq_store_def c
        by (simp add: san fv design_returns alloc_def Let_def) (simp add: ex1)
    qed
  qed
qed

text \<open>
  The store does tell a copy from a write in place: with \<open>copy=False\<close>,
  \<open>np.nan_to_num\<close> changes the array that it is given.
\<close>

lemma nan_to_num_in_place_writes:
  "np_nan_to_num ([NaN, Finite 1] # []) 0 False = ([Finite 0, Finite 1] # [], 0)
   \<and> np_nan_to_num ([NaN, Finite 1] # []) 0 True
       = ([NaN, Finite 1] # [Finite 0, Finite 1] # [], 1)"
  by (simp add: np_nan_to_num_def alloc_def array_at_def)

text \<open>
  Claim C10. \<open>compute_la_eq\<close> does not change its argument: after the call the
  array passed holds the elements it held before, whether they are finite or not, and
  so does every other array that existed before the call. The replacement of the
  non-finite values, the removal of the mean and the filtering produce new arrays.
  The call returns what the function returns on the contents of the array.
\<close>

theorem compute_la_eq_keeps_argument:
  "take (length h) (fst (compute_la_eq_store L h r fs)) = h
   \<and> (r < length h \<longrightarrow> array_at (fst (compute_la_eq_store L h r fs)) r = array_at h r)
   \<and> snd (compute_la_eq_store L h r fs) = compute_la_eq L (array_at h r) fs"
proof -
  from store_shape [of L h r fs] obtain ex where
    sh: "compute_la_eq_store L h r fs = (h @ ex, compute_la_eq L (array_at h r) fs)" by blast
  have "r < length h \<longrightarrow> array_at (h @ ex) r = array_at h r"
    by (simp add: array_at_def nth_append)
  then show ?thesis by (simp add: sh)
qed

theorem compute_la_eq_keeps_argument_witness:
  "(0::nat) < length [NaN # replicate 6 (Finite 0)]
   \<and> array_at (fst (compute_la_eq_store unit_gain_lib [NaN # replicate 6 (Finite 0)] 0 48000)) 0
       = NaN # replicate 6 (Finite 0)
   \<and> snd (compute_la_eq_store unit_gain_lib [NaN # replicate 6 (Finite 0)] 0 48000)
       = ([], Inr NegInf)"
proof -
  let ?p = "NaN # replicate 6 (Finite 0)"
  have at: "array_at [?p] 0 = ?p" by (simp add: array_at_def)
  have len: "length ?p = 7" by simp
  have sil: "\<forall>v \<in> set ?p. v = Finite 0 \<or> \<not> isfinite v" by simp
  have flt: "sosfiltfilt unit_gain_lib
       (case bilinear unit_gain_lib NUM DEN 48000 of (b_z, a_z) \<Rightarrow> tf2sos unit_gain_lib b_z a_z)
       (replicate (length ?p) 0) = Inr (replicate (length ?p) 0)"
    by (simp only: len unit_gain_filter) simp
  have res: "compute_la_eq unit_gain_lib ?p 48000 = ([], Inr NegInf)"
    by (rule compute_la_eq_silent [OF _ _ sil flt]) simp_all
  from compute_la_eq_keeps_argument [of "[?p]" unit_gain_lib 0 48000]
  show ?thesis by (simp only: at res) simp
qed

subsection \<open>Decimal digits\<close>

lemma str_nat_small: "n < 10 \<Longrightarrow> str_nat n = [48 + n]"
  by (simp add: str_nat.simps)

lemma str_nat_large: "\<not> n < 10 \<Longrightarrow> str_nat n = str_nat (n div 10) @ [48 + n mod 10]"
  by (subst str_nat.simps) simp

lemma str_nat_not_empty: "str_nat n \<noteq> []"
  by (cases "n < 10") (simp_all add: str_nat_small str_nat_large)

lemma str_nat_length_one: "length (str_nat n) = 1 \<longleftrightarrow> n < 10"
proof (cases "n < 10")
  case True
  then show ?thesis by (simp add: str_nat_small)
next
  case False
  have "0 < length (str_nat (n div 10))" using str_nat_not_empty by simp
  with False show ?thesis by (simp add: str_nat_large)
qed

lemma str_nat_inject: "str_nat n = str_nat m \<Longrightarrow> n = m"
proof (induction n arbitrary: m rule: str_nat.induct)
  case (1 n)
  show ?case
  proof (cases "n < 10")
    case True
    then have "length (str_nat n) = 1" by (simp only: str_nat_length_one)
    with "1.prems" have "length (str_nat m) = 1" by simp
    then have m: "m < 10" by (simp only: str_nat_length_one)
    with True "1.prems" show ?thesis by (simp add: str_nat_small)
  next
    case False
    then have "length (str_nat n) \<noteq> 1" using str_nat_length_one [of n] by blast
    with "1.prems" have "length (str_nat m) \<noteq> 1" by simp
    then have m: "\<not> m < 10" using str_nat_length_one [of m] by blast
    from "1.prems" False m
    have eq: "str_nat (n div 10) = str_nat (m div 10)" and md: "n mod 10 = m mod 10"
      by (simp_all add: str_nat_large)
    from "1.IH" [OF False eq] have "n div 10 = m div 10" .
    with md show ?thesis by (metis div_mult_mod_eq)
  qed
qed

lemma candidate_name_inject: "candidate_name st sf n = candidate_name st sf m \<Longrightarrow> n = m"
  by (simp add: candidate_name_def str_nat_inject)

subsection \<open>The increment of a path\<close>

lemma with_name_named: "name p \<noteq> [] \<Longrightarrow> with_name p nm = Inr (Path (parent p) nm)"
  by (simp add: with_name_def)

lemma increment_loop_found:
  assumes "name p \<noteq> []" "Path (parent p) (candidate_name st sf n) \<notin> fs"
  shows "increment_loop fs p st sf n = Some (Inr (Path (parent p) (candidate_name st sf n)))"
  using assms by (subst increment_loop.simps) (simp add: with_name_named)

lemma increment_loop_next:
  assumes "name p \<noteq> []" "Path (parent p) (candidate_name st sf n) \<in> fs"
  shows "increment_loop fs p st sf n = increment_loop fs p st sf (n + 1)"
  using assms by (subst increment_loop.simps) (simp add: with_name_named)

lemma increment_loop_reaches:
  assumes nm: "name p \<noteq> []"
    and free: "Path (parent p) (candidate_name st sf N) \<notin> fs"
    and taken: "\<forall>k. n \<le> k \<and> k < N \<longrightarrow> Path (parent p) (candidate_name st sf k) \<in> fs"
    and le: "n \<le> N"
  shows "increment_loop fs p st sf n = Some (Inr (Path (parent p) (candidate_name st sf N)))"
  using taken le
proof (induction "N - n" arbitrary: n)
  case 0
  then have "n = N" by simp
  with nm free show ?case by (simp add: increment_loop_found)
next
  case (Suc d)
  then have lt: "n < N" by simp
  with Suc.prems have "Path (parent p) (candidate_name st sf n) \<in> fs" by simp
  from increment_loop_next [OF nm this]
  have step: "increment_loop fs p st sf n = increment_loop fs p st sf (n + 1)" .
  have "d = N - (n + 1)" using Suc.hyps(2) by simp
  moreover have "\<forall>k. n + 1 \<le> k \<and> k < N \<longrightarrow> Path (parent p) (candidate_name st sf k) \<in> fs"
    using Suc.prems(1) by simp
  moreover have "n + 1 \<le> N" using lt by simp
  ultimately have "increment_loop fs p st sf (n + 1)
      = Some (Inr (Path (parent p) (candidate_name st sf N)))"
    by (rule Suc.hyps(1))
  with step show ?case by simp
qed

lemma some_candidate_free:
  assumes "finite {q \<in> fs. parent q = d}"
  shows "\<exists>N. 2 \<le> N \<and> Path d (candidate_name st sf N) \<notin> fs"
proof (rule ccontr)
  assume "\<not> (\<exists>N. 2 \<le> N \<and> Path d (candidate_name st sf N) \<notin> fs)"
  then have all: "\<And>N. 2 \<le> N \<Longrightarrow> Path d (candidate_name st sf N) \<in> fs" by blast
  let ?c = "\<lambda>N. Path d (candidate_name st sf N)"
  have inj: "inj_on ?c {2..}"
    by (rule inj_onI) (simp add: candidate_name_inject)
  have sub: "?c ` {2..} \<subseteq> {q \<in> fs. parent q = d}" using all by auto
  have "infinite {2::nat ..}" by (simp add: infinite_Ici)
  with inj have "infinite (?c ` {2..})" by (simp add: finite_image_iff)
  with sub assms show False using finite_subset by blast
qed

text \<open>
  Claim C7. A path that does not exist is returned unchanged. For a path that exists,
  names a file (its final component is not empty) and has finitely many existing
  siblings, \<open>increment_path\<close> returns: the result is the sibling named
  \<open><stem> (N)<suffix>\<close> for the smallest \<open>N \<ge> 2\<close> whose candidate does not
  exist, and that path does not exist.
\<close>

theorem increment_path_smallest_free:
  "(p \<notin> fs \<longrightarrow> increment_path fs p = Some (Inr p))
   \<and> (p \<in> fs \<and> name p \<noteq> [] \<and> finite {q \<in> fs. parent q = parent p} \<longrightarrow>
        (\<exists>N. 2 \<le> N
           \<and> increment_path fs p =
               Some (Inr (Path (parent p) (stem p @ u '' ('' @ str_nat N @ u '')'' @ suffix p)))
           \<and> Path (parent p) (stem p @ u '' ('' @ str_nat N @ u '')'' @ suffix p) \<notin> fs
           \<and> (\<forall>k. 2 \<le> k \<and> k < N \<longrightarrow>
                 Path (parent p) (stem p @ u '' ('' @ str_nat k @ u '')'' @ suffix p) \<in> fs)))"
proof -
  have absent: "p \<notin> fs \<longrightarrow> increment_path fs p = Some (Inr p)"
    by (simp add: increment_path_def)
  have present: "p \<in> fs \<and> name p \<noteq> [] \<and> finite {q \<in> fs. parent q = parent p} \<longrightarrow>
        (\<exists>N. 2 \<le> N
           \<and> increment_path fs p = Some (Inr (Path (parent p) (candidate_name (stem p) (suffix p) N)))
           \<and> Path (parent p) (candidate_name (stem p) (suffix p) N) \<notin> fs
           \<and> (\<forall>k. 2 \<le> k \<and> k < N \<longrightarrow>
                 Path (parent p) (candidate_name (stem p) (suffix p) k) \<in> fs))"
  proof
    assume h: "p \<in> fs \<and> name p \<noteq> [] \<and> finite {q \<in> fs. parent q = parent p}"
    let ?free = "\<lambda>N. 2 \<le> N \<and> Path (parent p) (candidate_name (stem p) (suffix p) N) \<notin> fs"
    from h have "\<exists>N. ?free N" by (simp add: some_candidate_free)
    then obtain M where M: "?free M" by blast
    define N where "N = (LEAST N. ?free N)"
    have N: "?free N" unfolding N_def using M by (rule LeastI)
    have least: "\<And>k. ?free k \<Longrightarrow> N \<le> k" unfolding N_def by (rule Least_le)
    have taken: "\<forall>k. 2 \<le> k \<and> k < N \<longrightarrow>
        Path (parent p) (candidate_name (stem p) (suffix p) k) \<in> fs"
    proof (intro allI impI)
      fix k assume k: "2 \<le> k \<and> k < N"
      show "Path (parent p) (candidate_name (stem p) (suffix p) k) \<in> fs"
      proof (rule ccontr)
        assume "Path (parent p) (candidate_name (stem p) (suffix p) k) \<notin> fs"
        with k have "?free k" by simp
        from least [OF this] k show False by simp
      qed
    qed
    from h N taken
    have "increment_loop fs p (stem p) (suffix p) 2
        = Some (Inr (Path (parent p) (candidate_name (stem p) (suffix p) N)))"
      by (intro increment_loop_reaches) simp_all
    with h have "increment_path fs p
        = Some (Inr (Path (parent p) (candidate_name (stem p) (suffix p) N)))"
      by (simp add: increment_path_def)
    with N taken show "\<exists>N. 2 \<le> N
           \<and> increment_path fs p = Some (Inr (Path (parent p) (candidate_name (stem p) (suffix p) N)))
           \<and> Path (parent p) (candidate_name (stem p) (suffix p) N) \<notin> fs
           \<and> (\<forall>k. 2 \<le> k \<and> k < N \<longrightarrow>
                 Path (parent p) (candidate_name (stem p) (suffix p) k) \<in> fs)"
      by blast
  qed
  from absent present show ?thesis unfolding candidate_name_def by blast
qed

lemma stem_suffix_example:
  "stem (Path [] (u ''a.tdms'')) = u ''a'' \<and> suffix (Path [] (u ''a.tdms'')) = u ''.tdms''"
  by (simp add: stem_def suffix_def rfind_def u_def)

lemma str_nat_example: "str_nat 2 = u ''2'' \<and> str_nat 3 = u ''3''"
  by (simp add: str_nat_small u_def)

theorem increment_path_smallest_free_witness:
  "Path [] (u ''b.tdms'') \<notin> {Path [] (u ''a.tdms''), Path [] (u ''a (2).tdms'')}
   \<and> increment_path {Path [] (u ''a.tdms''), Path [] (u ''a (2).tdms'')} (Path [] (u ''b.tdms''))
       = Some (Inr (Path [] (u ''b.tdms'')))
   \<and> Path [] (u ''a.tdms'') \<in> {Path [] (u ''a.tdms''), Path [] (u ''a (2).tdms'')}
   \<and> name (Path [] (u ''a.tdms'')) \<noteq> []
   \<and> finite {q \<in> {Path [] (u ''a.tdms''), Path [] (u ''a (2).tdms'')}. parent q = []}
   \<and> increment_path {Path [] (u ''a.tdms''), Path [] (u ''a (2).tdms'')} (Path [] (u ''a.tdms''))
       = Some (Inr (Path [] (u ''a (3).tdms'')))"
proof -
  let ?fs = "{Path [] (u ''a.tdms''), Path [] (u ''a (2).tdms'')}"
  let ?p = "Path [] (u ''a.tdms'')"
  let ?b = "Path [] (u ''b.tdms'')"
  have nb: "?b \<notin> ?fs" by (simp add: u_def)
  from increment_path_smallest_free [of ?b ?fs] nb
  have rb: "increment_path ?fs ?b = Some (Inr ?b)" by blast
  have inp: "?p \<in> ?fs" by simp
  have nm: "name ?p \<noteq> []" by (simp add: u_def)
  have fin: "finite {q \<in> ?fs. parent q = []}" by simp
  have c2: "Path [] (u ''a'' @ u '' ('' @ str_nat 2 @ u '')'' @ u ''.tdms'') \<in> ?fs"
    by (simp add: str_nat_example) (simp add: u_def)
  have c3: "Path [] (u ''a'' @ u '' ('' @ str_nat 3 @ u '')'' @ u ''.tdms'') \<notin> ?fs"
    by (simp add: str_nat_example) (simp add: u_def)
  have n3: "u ''a'' @ u '' ('' @ str_nat 3 @ u '')'' @ u ''.tdms'' = u ''a (3).tdms''"
    by (simp add: str_nat_example) (simp add: u_def)
  from increment_path_smallest_free [of ?p ?fs] inp nm fin
  obtain N where N: "2 \<le> N"
    and r: "increment_path ?fs ?p =
        Some (Inr (Path [] (u ''a'' @ u '' ('' @ str_nat N @ u '')'' @ u ''.tdms'')))"
    and free: "Path [] (u ''a'' @ u '' ('' @ str_nat N @ u '')'' @ u ''.tdms'') \<notin> ?fs"
    and least: "\<forall>k. 2 \<le> k \<and> k < N \<longrightarrow>
        Path [] (u ''a'' @ u '' ('' @ str_nat k @ u '')'' @ u ''.tdms'') \<in> ?fs"
    unfolding stem_suffix_example [THEN conjunct1] stem_suffix_example [THEN conjunct2]
      path.sel
    by blast
  have "N \<noteq> 2" using free c2 by blast
  moreover have "\<not> 3 < N"
  proof
    assume "3 < N"
    then have "2 \<le> (3::nat) \<and> 3 < N" by simp
    with least have "Path [] (u ''a'' @ u '' ('' @ str_nat 3 @ u '')'' @ u ''.tdms'') \<in> ?fs"
      by blast
    with c3 show False by blast
  qed
  ultimately have "N = 3" using N by simp
  with r n3 have ra: "increment_path ?fs ?p = Some (Inr (Path [] (u ''a (3).tdms'')))" by simp
  from nb rb inp nm fin ra show ?thesis by (intro conjI)
qed

subsection \<open>File names\<close>

lemma set_lstrip: "set (lstrip s) \<subseteq> set s"
  unfolding lstrip_def using set_dropWhileD by fastforce

lemma set_rstrip: "set (rstrip s) \<subseteq> set s"
  unfolding rstrip_def using set_dropWhileD by fastforce

lemma set_strip: "set (strip s) \<subseteq> set s"
  unfolding strip_def using set_lstrip set_rstrip by blast

lemma length_strip: "length (strip s) \<le> length s"
proof -
  have "length (strip s) \<le> length (lstrip s)"
    unfolding strip_def rstrip_def
    using length_dropWhile_le [of isspace "rev (lstrip s)"] by simp
  also have "\<dots> \<le> length s" unfolding lstrip_def by (rule length_dropWhile_le)
  finally show ?thesis .
qed

lemma not_illegal_space: "\<not> illegal 32"
  by (simp add: illegal_def)

lemma placeholder_legal: "list_all (\<lambda>c. \<not> illegal c) (u ''NA'')"
  by (simp add: u_def illegal_def)

lemma sanitize_token_legal: "list_all (\<lambda>c. \<not> illegal c) (sanitize_token text 60)"
proof -
  let ?t = "strip (remove_illegal (collapse_ws (strip (case text of None \<Rightarrow> [] | Some t \<Rightarrow> t))))"
  have "set ?t \<subseteq> set (remove_illegal (collapse_ws (strip (case text of None \<Rightarrow> [] | Some t \<Rightarrow> t))))"
    by (rule set_strip)
  then have "\<forall>c \<in> set ?t. \<not> illegal c" by (auto simp: remove_illegal_def)
  then have "\<forall>c \<in> set (take 60 ?t). \<not> illegal c" by (meson in_set_takeD)
  then have "list_all (\<lambda>c. \<not> illegal c) (take 60 ?t)" by (simp add: list_all_iff)
  with placeholder_legal show ?thesis
    by (simp add: sanitize_token_def slice_to_def Let_def)
qed

lemma sanitize_token_not_empty: "sanitize_token text 60 \<noteq> []"
  by (simp add: sanitize_token_def slice_to_def Let_def u_def)

lemma sanitize_token_length: "length (sanitize_token text 60) \<le> 60"
  by (simp add: sanitize_token_def slice_to_def Let_def u_def)

lemma recording_filename_template:
  "recording_filename now project unit state loc =
     today_yyyy_mm_dd now @ u '' - '' @ sanitize_token (Some project) 60 @ u '' - ''
       @ sanitize_token (Some unit) 60 @ u '' - '' @ sanitize_token (Some state) 60
       @ u '' - '' @ sanitize_token (Some loc) 60 @ u ''.tdms''"
  by (simp add: recording_filename_def build_tdms_filename_def Let_def)

lemma today_example: "today_yyyy_mm_dd \<lparr>year = 2025, month = 1, day = 15\<rparr> = u ''2025-01-15''"
proof -
  have y: "str_nat 2025 = u ''2025''" by (simp add: str_nat_small str_nat_large u_def)
  have m: "str_nat 1 = u ''1''" using str_nat_small [of 1] by (simp add: u_def)
  have d: "str_nat 15 = u ''15''" by (simp add: str_nat_small str_nat_large u_def)
  have l: "length (u ''1'') = 1" "length (u ''15'') = 2"
    by (simp_all add: u_def)
  show ?thesis
    unfolding today_yyyy_mm_dd_def zero_pad_def date.simps y m d l by (simp add: u_def)
qed

lemma sanitize_examples:
  "sanitize_token (Some (u ''PIT5'')) 60 = u ''PIT5''"
  "sanitize_token (Some (u ''U1'')) 60 = u ''U1''"
  "sanitize_token (Some (u ''Full Load'')) 60 = u ''Full Load''"
  "sanitize_token (Some (u ''G1'')) 60 = u ''G1''"
  "sanitize_token (Some (u ''a : b'')) 60 = u ''a  b''"
  "sanitize_spec (u ''PIT5'') = u ''PIT5''"
  "sanitize_spec (u ''U1'') = u ''U1''"
  "sanitize_spec (u ''Full Load'') = u ''Full Load''"
  "sanitize_spec (u ''G1'') = u ''G1''"
  "sanitize_spec (u ''a : b'') = u ''a b''"
  by (simp_all add: sanitize_token_def sanitize_spec_def u_def strip_def lstrip_def rstrip_def
      isspace_def illegal_def remove_illegal_def slice_to_def Let_def)

subsection \<open>Whitespace\<close>

lemma lstrip_Nil: "lstrip [] = []"
  by (simp add: lstrip_def)

lemma lstrip_Cons: "lstrip (c # cs) = (if isspace c then lstrip cs else c # cs)"
  by (simp add: lstrip_def)

lemma lstrip_head: "lstrip s = [] \<or> \<not> isspace (hd (lstrip s))"
  unfolding lstrip_def using hd_dropWhile [of isspace s] by blast

lemma lstrip_all_space: "lstrip s = [] \<longleftrightarrow> list_all isspace s"
  by (simp add: lstrip_def list_all_iff)

lemma rstrip_Nil: "rstrip [] = []"
  by (simp add: rstrip_def)

lemma rstrip_Cons:
  "rstrip (c # cs) = (if list_all isspace (c # cs) then [] else c # rstrip cs)"
  by (auto simp: rstrip_def dropWhile_append list_all_iff)

lemma rstrip_all_space: "rstrip s = [] \<longleftrightarrow> list_all isspace s"
  by (simp add: rstrip_def list_all_iff)

lemma lstrip_rstrip: "lstrip (rstrip s) = rstrip (lstrip s)"
proof (induction s)
  case Nil
  then show ?case by (simp add: lstrip_Nil rstrip_Nil)
next
  case (Cons c cs)
  show ?case
  proof (cases "isspace c")
    case True
    show ?thesis
    proof (cases "list_all isspace cs")
      case all: True
      then have "lstrip cs = []" by (simp only: lstrip_all_space)
      with True all show ?thesis by (simp add: lstrip_Cons rstrip_Cons rstrip_Nil lstrip_Nil)
    next
      case False
      with True Cons.IH show ?thesis by (simp add: lstrip_Cons rstrip_Cons)
    qed
  next
    case False
    then show ?thesis by (simp add: lstrip_Cons rstrip_Cons)
  qed
qed

lemma collapse_ws_all_space: "list_all isspace (collapse_ws s) \<longleftrightarrow> list_all isspace s"
proof (induction s rule: collapse_ws.induct)
  case 1
  then show ?case by simp
next
  case (2 c cs)
  show ?case
  proof (cases "isspace c")
    case True
    have sp: "isspace 32" by (simp add: isspace_def)
    have "list_all isspace (dropWhile isspace cs) \<longleftrightarrow> list_all isspace cs"
      by (metis lstrip_all_space lstrip_def dropWhile_idem)
    with True 2 sp show ?thesis by simp
  next
    case False
    then show ?thesis by simp
  qed
qed

lemma lstrip_collapse_ws_fixed:
  "d = [] \<or> \<not> isspace (hd d) \<Longrightarrow> lstrip (collapse_ws d) = collapse_ws d"
  by (cases d) (simp_all add: lstrip_Nil lstrip_Cons)

lemma lstrip_collapse_ws: "lstrip (collapse_ws t) = collapse_ws (lstrip t)"
proof (cases t)
  case Nil
  then show ?thesis by (simp add: lstrip_Nil)
next
  case (Cons c cs)
  show ?thesis
  proof (cases "isspace c")
    case True
    have sp: "isspace 32" by (simp add: isspace_def)
    from lstrip_collapse_ws_fixed [OF lstrip_head [of cs]]
    have "lstrip (collapse_ws (lstrip cs)) = collapse_ws (lstrip cs)" .
    with True sp Cons show ?thesis by (simp add: lstrip_Cons lstrip_def [symmetric])
  next
    case False
    with Cons show ?thesis by (simp add: lstrip_Cons)
  qed
qed

lemma rstrip_collapse_ws: "rstrip (collapse_ws t) = collapse_ws (rstrip t)"
proof (induction t rule: collapse_ws.induct)
  case 1
  then show ?case by (simp add: rstrip_Nil)
next
  case (2 c cs)
  show ?case
  proof (cases "isspace c")
    case True
    have sp: "isspace 32" by (simp add: isspace_def)
    from 2(1) [OF True]
    have IH: "rstrip (collapse_ws (lstrip cs)) = collapse_ws (rstrip (lstrip cs))"
      by (simp only: lstrip_def)
    show ?thesis
    proof (cases "list_all isspace cs")
      case all: True
      then have d: "lstrip cs = []" by (simp only: lstrip_all_space)
      from True all sp show ?thesis
        by (simp add: rstrip_Cons rstrip_Nil lstrip_def [symmetric] d)
    next
      case False
      then have d: "lstrip cs \<noteq> []" by (simp add: lstrip_all_space)
      then have "\<not> list_all isspace (lstrip cs)"
        using lstrip_head [of cs] by (cases "lstrip cs") auto
      then have ns: "\<not> list_all isspace (collapse_ws (lstrip cs))"
        by (simp add: collapse_ws_all_space)
      have "rstrip (collapse_ws (c # cs)) = 32 # rstrip (collapse_ws (lstrip cs))"
        using True ns by (simp add: rstrip_Cons lstrip_def [symmetric])
      also have "\<dots> = 32 # collapse_ws (rstrip (lstrip cs))" by (simp only: IH)
      also have "\<dots> = 32 # collapse_ws (lstrip (rstrip cs))" by (simp only: lstrip_rstrip)
      also have "\<dots> = collapse_ws (c # rstrip cs)"
        using True by (simp add: lstrip_def)
      also have "\<dots> = collapse_ws (rstrip (c # cs))"
        using False by (simp add: rstrip_Cons)
      finally show ?thesis .
    qed
  next
    case False
    from 2(2) [OF False] have IH: "rstrip (collapse_ws cs) = collapse_ws (rstrip cs)" .
    from False IH show ?thesis by (simp add: rstrip_Cons)
  qed
qed

lemma lstrip_idem: "lstrip (lstrip s) = lstrip s"
  by (simp add: lstrip_def)

lemma rstrip_idem: "rstrip (rstrip s) = rstrip s"
  by (simp add: rstrip_def)

lemma strip_collapse_ws: "strip (collapse_ws t) = rstrip (collapse_ws (lstrip t))"
  by (simp only: strip_def lstrip_collapse_ws)

lemma strip_collapse_ws_strip: "strip (collapse_ws (strip t)) = strip (collapse_ws t)"
proof -
  have "strip (collapse_ws (strip t)) = rstrip (collapse_ws (lstrip (rstrip (lstrip t))))"
    by (simp only: strip_def lstrip_collapse_ws)
  also have "\<dots> = rstrip (collapse_ws (rstrip (lstrip t)))"
    by (simp only: lstrip_rstrip lstrip_idem)
  also have "\<dots> = rstrip (collapse_ws (lstrip t))"
    by (simp only: rstrip_collapse_ws [symmetric] rstrip_idem)
  finally show ?thesis by (simp only: strip_collapse_ws)
qed

lemma set_collapse_ws: "set (collapse_ws s) \<subseteq> insert 32 (set s)"
proof (induction s rule: collapse_ws.induct)
  case 1
  then show ?case by simp
next
  case (2 c cs)
  show ?case
  proof (cases "isspace c")
    case True
    have "set (dropWhile isspace cs) \<subseteq> set cs" using set_dropWhileD by fastforce
    with 2(1) [OF True] True show ?thesis by auto
  next
    case False
    with 2(2) [OF False] show ?thesis by auto
  qed
qed

lemma remove_illegal_clean: "list_all (\<lambda>c. \<not> illegal c) s \<Longrightarrow> remove_illegal s = s"
  by (simp add: remove_illegal_def list_all_iff)

lemma sanitize_token_clean:
  assumes "list_all (\<lambda>c. \<not> illegal c) t"
  shows "sanitize_token (Some t) 60 = sanitize_spec t"
proof -
  from assms have t: "\<forall>c \<in> set t. \<not> illegal c" by (simp add: list_all_iff)
  have "set (collapse_ws (strip t)) \<subseteq> insert 32 (set t)"
    using set_collapse_ws [of "strip t"] set_strip [of t] by blast
  with t not_illegal_space have "list_all (\<lambda>c. \<not> illegal c) (collapse_ws (strip t))"
    by (auto simp: list_all_iff)
  then have a: "remove_illegal (collapse_ws (strip t)) = collapse_ws (strip t)"
    by (rule remove_illegal_clean)
  from assms have b: "remove_illegal t = t" by (rule remove_illegal_clean)
  show ?thesis
    unfolding sanitize_token_def sanitize_spec_def Let_def option.case a b
      strip_collapse_ws_strip slice_to_def
    by simp
qed

text \<open>
  Claim C6. The code breaks it. \<open>sanitize_token\<close> collapses the whitespace and then
  removes the illegal characters, so the whitespace on both sides of a removed
  character is left as it stands: for the project \<open>a : b\<close> on 2025-01-15 the file
  name holds \<open>a  b\<close>, with two spaces, where the sanitization of the claim, which
  collapses internal whitespace to single spaces, gives \<open>a b\<close>.
\<close>

theorem recording_filename_keeps_double_space:
  "recording_filename \<lparr>year = 2025, month = 1, day = 15\<rparr>
       (u ''a : b'') (u ''U1'') (u ''Full Load'') (u ''G1'')
     = u ''2025-01-15 - a  b - U1 - Full Load - G1.tdms''
   \<and> filename_spec \<lparr>year = 2025, month = 1, day = 15\<rparr>
       (u ''a : b'') (u ''U1'') (u ''Full Load'') (u ''G1'')
     = u ''2025-01-15 - a b - U1 - Full Load - G1.tdms''"
  unfolding recording_filename_template filename_spec_def today_example sanitize_examples
  by (simp add: u_def)

text \<open>
  What the file name does satisfy: it follows the template, with each token sanitized;
  a sanitized token holds none of the characters \<^verbatim>\<open>< > : " / \ | ? *\<close> and no
  control character, is not empty and is at most 60 characters long; for a token
  without such a character the sanitization is the one the claim words, and so is the
  file name; and the example of the claim comes out as claimed.
\<close>

theorem recording_filename_sanitized:
  "recording_filename now project unit state loc =
     today_yyyy_mm_dd now @ u '' - '' @ sanitize_token (Some project) 60 @ u '' - ''
       @ sanitize_token (Some unit) 60 @ u '' - '' @ sanitize_token (Some state) 60
       @ u '' - '' @ sanitize_token (Some loc) 60 @ u ''.tdms''
   \<and> list_all (\<lambda>c. \<not> illegal c) (sanitize_token (Some t) 60)
   \<and> sanitize_token (Some t) 60 \<noteq> []
   \<and> length (sanitize_token (Some t) 60) \<le> 60
   \<and> (list_all (\<lambda>c. \<not> illegal c) t \<longrightarrow> sanitize_token (Some t) 60 = sanitize_spec t)
   \<and> (list_all (\<lambda>c. \<not> illegal c) (project @ unit @ state @ loc) \<longrightarrow>
        recording_filename now project unit state loc = filename_spec now project unit state loc)
   \<and> recording_filename \<lparr>year = 2025, month = 1, day = 15\<rparr>
        (u ''PIT5'') (u ''U1'') (u ''Full Load'') (u ''G1'')
       = u ''2025-01-15 - PIT5 - U1 - Full Load - G1.tdms''"
proof -
  have clean: "list_all (\<lambda>c. \<not> illegal c) (project @ unit @ state @ loc) \<longrightarrow>
        recording_filename now project unit state loc = filename_spec now project unit state loc"
  proof
    assume "list_all (\<lambda>c. \<not> illegal c) (project @ unit @ state @ loc)"
    then have "list_all (\<lambda>c. \<not> illegal c) project" "list_all (\<lambda>c. \<not> illegal c) unit"
      "list_all (\<lambda>c. \<not> illegal c) state" "list_all (\<lambda>c. \<not> illegal c) loc"
      by simp_all
    then show "recording_filename now project unit state loc
        = filename_spec now project unit state loc"
      by (simp only: recording_filename_template filename_spec_def sanitize_token_clean)
  qed
  have ex: "recording_filename \<lparr>year = 2025, month = 1, day = 15\<rparr>
        (u ''PIT5'') (u ''U1'') (u ''Full Load'') (u ''G1'')
       = u ''2025-01-15 - PIT5 - U1 - Full Load - G1.tdms''"
    unfolding recording_filename_template today_example sanitize_examples
    by (simp add: u_def)
  from recording_filename_template sanitize_token_legal sanitize_token_not_empty
    sanitize_token_length sanitize_token_clean clean ex
  show ?thesis by blast
qed

theorem recording_filename_sanitized_witness:
  "list_all (\<lambda>c. \<not> illegal c) (u ''Full   Load '')
   \<and> sanitize_token (Some (u ''Full   Load '')) 60 = u ''Full Load''
   \<and> sanitize_spec (u ''Full   Load '') = u ''Full Load''
   \<and> list_all (\<lambda>c. \<not> illegal c) (u ''PIT5'' @ u ''U1'' @ u ''Full   Load '' @ u ''G1'')
   \<and> recording_filename \<lparr>year = 2025, month = 1, day = 15\<rparr>
        (u ''PIT5'') (u ''U1'') (u ''Full   Load '') (u ''G1'')
       = filename_spec \<lparr>year = 2025, month = 1, day = 15\<rparr>
        (u ''PIT5'') (u ''U1'') (u ''Full   Load '') (u ''G1'')"
proof -
  have c1: "list_all (\<lambda>c. \<not> illegal c) (u ''Full   Load '')"
    by (simp add: u_def illegal_def)
  have c2: "list_all (\<lambda>c. \<not> illegal c) (u ''PIT5'' @ u ''U1'' @ u ''Full   Load '' @ u ''G1'')"
    by (simp add: u_def illegal_def)
  have v: "sanitize_spec (u ''Full   Load '') = u ''Full Load''"
    by (simp add: sanitize_spec_def u_def strip_def lstrip_def rstrip_def
      isspace_def illegal_def remove_illegal_def Let_def)
  note t = recording_filename_sanitized [of "\<lparr>year = 2025, month = 1, day = 15\<rparr>"
      "u ''PIT5''" "u ''U1''" "u ''Full   Load ''" "u ''G1''" "u ''Full   Load ''"]
  from t c1 have e1: "sanitize_token (Some (u ''Full   Load '')) 60 = sanitize_spec (u ''Full   Load '')"
    by blast
  from t c2 have e2: "recording_filename \<lparr>year = 2025, month = 1, day = 15\<rparr>
        (u ''PIT5'') (u ''U1'') (u ''Full   Load '') (u ''G1'')
       = filename_spec \<lparr>year = 2025, month = 1, day = 15\<rparr>
        (u ''PIT5'') (u ''U1'') (u ''Full   Load '') (u ''G1'')"
    by blast
  from c1 e1 v c2 e2 show ?thesis by simp
qed

end
